theory Spec2Isabelle
  imports Complex_Main "HOL-Library.Stream"
begin

section \<open>The topology manager (scripts/topology.py)\<close>

subsection \<open>Exceptions, replies of the cluster, the manager's world\<close>

text \<open>
  Python exceptions are values. \<open>ValueError\<close> carries its message (the two configuration
  errors differ only by it), \<open>IndexError\<close> is a list index out of range, and
  \<open>RequestError\<close> stands for any exception raised by a network call (a refused
  connection, an HTTP error status turned into an exception, an undecodable body).
\<close>

datatype error = ValueError string | IndexError | RequestError

text \<open>
  What the cluster answers. The answers depend on the node asked and on the moment of the
  request: every external request reads its reply at the current value of a logical clock
  and advances the clock, so two requests to the same node may be answered differently.
  \<^item> \<open>socket.gethostbyname\<close>: an address, \<open>socket.gaierror\<close>, or another exception;
  \<^item> \<open>POST /id\<close> followed by \<open>response.json()['ID']\<close>: the decoded value (a string, or
    JSON null), or an exception;
  \<^item> \<open>POST /swarm/connect\<close>: a status code, or an exception;
  \<^item> \<open>POST /swarm/peers?verbose=true\<close>: a status code with the decoded \<open>Peers\<close> list (the
    empty list when the key is missing or null), or an exception (of the request, of the
    decoding, or of the traversal of a malformed entry, all of which happen before the
    first matrix entry of the node is written).
\<close>

datatype dns_reply = Resolved string | GaiError | DnsRaised

datatype id_reply = IdValue "string option" | IdRaised

datatype connect_reply = ConnStatus nat | ConnRaised

record stream_info =
  Protocol :: "string option"

record peer_info =
  Peer :: "string option"
  Streams :: "stream_info list"

datatype peers_reply = PeersReply nat "peer_info list" | PeersRaised

record env =
  gethostbyname :: "nat \<Rightarrow> nat \<Rightarrow> dns_reply"
  post_id :: "nat \<Rightarrow> nat \<Rightarrow> id_reply"
  post_swarm_connect :: "nat \<Rightarrow> nat \<Rightarrow> string \<Rightarrow> string \<Rightarrow> connect_reply"
  post_swarm_peers :: "nat \<Rightarrow> nat \<Rightarrow> peers_reply"

text \<open>
  One row of topology.csv (the timestamp column is left out: it is wall-clock time), and
  the world the manager acts on: the logical clock, the calls of \<open>connect_nodes\<close> made so
  far (source index, target index; instrumentation, the code keeps no such list), and the
  rows appended to topology.csv after its header. Console output (\<open>print\<close>) is not part
  of the model.
\<close>

record exec_row =
  row_action :: string
  row_num_nodes :: nat
  row_status :: string
  row_details :: string

record world =
  clock :: nat
  calls :: "(nat \<times> nat) list"
  topology_log :: "exec_row list"

definition tick :: "world \<Rightarrow> world" where
  "tick w = w\<lparr>clock := Suc (clock w)\<rparr>"

definition log_execution :: "nat \<Rightarrow> string \<Rightarrow> string \<Rightarrow> string \<Rightarrow> world \<Rightarrow> world" where
  "log_execution n act st det w =
     w\<lparr>topology_log := topology_log w @
        [\<lparr>row_action = act, row_num_nodes = n, row_status = st, row_details = det\<rparr>]\<rparr>"

subsection \<open>resolve_container_ip, get_node_id, connect_nodes\<close>

text \<open>
  The manager holds \<open>names\<close> and \<open>urls\<close>, two lists of length \<open>n = num_nodes\<close>; an index
  is a natural number here (the constructors never pass a negative one), and indexing
  either list at \<open>index \<ge> n\<close> raises IndexError.

  \<open>resolve_container_ip\<close> catches \<open>socket.gaierror\<close> only: the IndexError of
  \<open>self.names[index]\<close> and any other exception of the lookup leave the function.
\<close>

definition resolve_container_ip ::
  "env \<Rightarrow> nat \<Rightarrow> nat \<Rightarrow> world \<Rightarrow> (error + string option) \<times> world" where
  "resolve_container_ip e n index w =
     (if n \<le> index then (Inl IndexError, w)
      else (case gethostbyname e (clock w) index of
              Resolved ip \<Rightarrow> (Inr (Some ip), tick w)
            | GaiError \<Rightarrow> (Inr None, tick w)
            | DnsRaised \<Rightarrow> (Inl RequestError, tick w)))"

text \<open>
  \<open>get_node_id\<close> catches every exception of the request and returns None; its handler
  prints \<open>self.names[index]\<close>, so an index out of range raises IndexError from the
  handler.
\<close>

definition get_node_id ::
  "env \<Rightarrow> nat \<Rightarrow> nat \<Rightarrow> world \<Rightarrow> (error + string option) \<times> world" where
  "get_node_id e n index w =
     (if n \<le> index then (Inl IndexError, w)
      else (case post_id e (clock w) index of
              IdValue v \<Rightarrow> (Inr v, tick w)
            | IdRaised \<Rightarrow> (Inr None, tick w)))"

text \<open>
  The \<open>except Exception\<close> handler of \<open>connect_nodes\<close>: it prints both names, which raises
  IndexError when an index is out of range, and returns False otherwise.
\<close>

definition connect_failed :: "nat \<Rightarrow> nat \<Rightarrow> nat \<Rightarrow> world \<Rightarrow> (error + bool) \<times> world" where
  "connect_failed n source_index target_index w =
     (if source_index < n \<and> target_index < n then (Inr False, w) else (Inl IndexError, w))"

text \<open>\<open>if not x\<close> on an optional string: None and the empty string are false.\<close>

definition falsy :: "string option \<Rightarrow> bool" where
  "falsy v = (case v of None \<Rightarrow> True | Some s \<Rightarrow> s = [])"

definition connect_nodes ::
  "env \<Rightarrow> nat \<Rightarrow> nat \<Rightarrow> nat \<Rightarrow> world \<Rightarrow> (error + bool) \<times> world" where
  "connect_nodes e n source_index target_index w0 =
     (let w = w0\<lparr>calls := calls w0 @ [(source_index, target_index)]\<rparr> in
      case resolve_container_ip e n target_index w of
        (Inl x, w1) \<Rightarrow> connect_failed n source_index target_index w1
      | (Inr target_ip, w1) \<Rightarrow>
          if falsy target_ip then (Inr False, w1)
          else (case get_node_id e n target_index w1 of
                  (Inl x, w2) \<Rightarrow> connect_failed n source_index target_index w2
                | (Inr target_id, w2) \<Rightarrow>
                    if falsy target_id then (Inr False, w2)
                    else if n \<le> source_index
                      then connect_failed n source_index target_index w2
                    else (case post_swarm_connect e (clock w2) source_index
                                 (the target_ip) (the target_id) of
                            ConnStatus code \<Rightarrow> (Inr (code = 200), tick w2)
                          | ConnRaised \<Rightarrow>
                              connect_failed n source_index target_index (tick w2))))"

text \<open>
  What the specification calls a successful connect of \<open>source_index\<close> to
  \<open>target_index\<close>, in terms of what the cluster answers to the three requests, the
  first of which is made at time \<open>clock w\<close>: the name of the target resolves to a
  non-empty address, the target reports a non-empty identity, and the source answers
  the connect command with status 200. \<open>connect_nodes\<close> is shown below to return
  exactly this truth value.
\<close>

definition connect_succeeds :: "env \<Rightarrow> nat \<Rightarrow> nat \<Rightarrow> world \<Rightarrow> bool" where
  "connect_succeeds e source_index target_index w \<longleftrightarrow>
     (case gethostbyname e (clock w) target_index of
        Resolved ip \<Rightarrow>
          ip \<noteq> [] \<and>
          (case post_id e (Suc (clock w)) target_index of
             IdValue (Some pid) \<Rightarrow>
               pid \<noteq> [] \<and>
               post_swarm_connect e (Suc (Suc (clock w))) source_index ip pid = ConnStatus 200
           | _ \<Rightarrow> False)
      | _ \<Rightarrow> False)"

subsection \<open>The constructors\<close>

text \<open>
  A \<open>for\<close> loop whose body may raise: the first exception ends the loop and leaves it,
  with the state as the body left it.
\<close>

fun for_each :: "('a \<Rightarrow> 's \<Rightarrow> (error + unit) \<times> 's) \<Rightarrow> 'a list \<Rightarrow> 's \<Rightarrow> (error + unit) \<times> 's" where
  "for_each body [] s = (Inr (), s)"
| "for_each body (x # xs) s =
     (case body x s of
        (Inl err, s') \<Rightarrow> (Inl err, s')
      | (Inr u, s') \<Rightarrow> for_each body xs s')"

text \<open>A call \<open>self.connect_nodes(i, j)\<close> whose result is discarded.\<close>

definition attempt :: "env \<Rightarrow> nat \<Rightarrow> nat \<Rightarrow> nat \<Rightarrow> world \<Rightarrow> (error + unit) \<times> world" where
  "attempt e n i j w =
     (case connect_nodes e n i j w of
        (Inl err, w') \<Rightarrow> (Inl err, w')
      | (Inr b, w') \<Rightarrow> (Inr (), w'))"

text \<open>The world after \<open>i\<close> has tried the targets \<open>ts\<close> one after the other.\<close>

definition after_attempts :: "env \<Rightarrow> nat \<Rightarrow> nat \<Rightarrow> nat list \<Rightarrow> world \<Rightarrow> world" where
  "after_attempts e n i ts w = snd (for_each (attempt e n i) ts w)"

definition create_ring_topology :: "env \<Rightarrow> nat \<Rightarrow> world \<Rightarrow> (error + unit) \<times> world" where
  "create_ring_topology e n w =
     for_each (\<lambda>i. attempt e n i ((i + 1) mod n)) [0..<n] w"

text \<open>
  \<open>int(len(self.urls) ** 0.5)\<close>: the floating-point square root, truncated. It is
  modelled by the integer square root (the greatest \<open>s\<close> with \<open>s * s \<le> n\<close>), which is
  what the expression computes as long as the node count is exactly representable as a
  double and far beyond any cluster size.
\<close>

fun floor_sqrt :: "nat \<Rightarrow> nat" where
  "floor_sqrt 0 = 0"
| "floor_sqrt (Suc n) =
     (let r = floor_sqrt n in if Suc r * Suc r \<le> Suc n then Suc r else r)"

text \<open>
  The body of the two nested loops of \<open>create_grid_topology\<close>. The Python compares
  \<open>j < size - 1\<close> on integers; the body only runs for \<open>size \<ge> 1\<close>, where the
  subtraction on naturals is the same. The variable \<open>size\<close> is called \<open>side\<close>.
\<close>

definition grid_cell :: "env \<Rightarrow> nat \<Rightarrow> nat \<Rightarrow> nat \<Rightarrow> nat \<Rightarrow> world \<Rightarrow> (error + unit) \<times> world" where
  "grid_cell e n side i j w =
     (let current = i * side + j in
      case (if j < side - 1 then attempt e n current (current + 1) w else (Inr (), w)) of
        (Inl err, w1) \<Rightarrow> (Inl err, w1)
      | (Inr u, w1) \<Rightarrow>
          if i < side - 1 then attempt e n current (current + side) w1 else (Inr (), w1))"

definition create_grid_topology :: "env \<Rightarrow> nat \<Rightarrow> world \<Rightarrow> (error + unit) \<times> world" where
  "create_grid_topology e n w =
     (let side = floor_sqrt n in
      if side * side \<noteq> n
      then (Inl (ValueError ''Number of nodes must be a perfect square for grid topology''), w)
      else for_each (\<lambda>i. for_each (\<lambda>j. grid_cell e n side i j) [0..<side]) [0..<side] w)"

definition create_fully_connected_topology :: "env \<Rightarrow> nat \<Rightarrow> world \<Rightarrow> (error + unit) \<times> world" where
  "create_fully_connected_topology e n w =
     for_each (\<lambda>i. for_each (\<lambda>j. attempt e n i j) [i + 1..<n]) [0..<n] w"

text \<open>
  \<open>random.choices(targets, probabilities, k=k)\<close> returns a list of \<open>k\<close> elements of
  \<open>targets\<close>, drawn independently (with replacement); every weight is \<open>1 / len(targets)\<close>,
  so every such list can come out. The draws are an input of the model (one list per
  new node, as a stream); \<open>choices_ok\<close> says that a list is a possible result.
\<close>

definition choices_ok :: "nat set \<Rightarrow> nat \<Rightarrow> nat list \<Rightarrow> bool" where
  "choices_ok targets k selected \<longleftrightarrow> length selected = k \<and> set selected \<subseteq> targets"

text \<open>
  The inner loop of \<open>create_barabasi_albert_topology\<close>: every selected target is tried,
  and the new node joins the set \<open>connected\<close> (here \<open>connected_set\<close>) at each success.
\<close>

fun connect_selected ::
  "env \<Rightarrow> nat \<Rightarrow> nat \<Rightarrow> nat list \<Rightarrow> nat set \<times> world \<Rightarrow> (error + unit) \<times> nat set \<times> world" where
  "connect_selected e n new_node_index [] (connected_set, w) = (Inr (), connected_set, w)"
| "connect_selected e n new_node_index (target_index # rest) (connected_set, w) =
     (case connect_nodes e n new_node_index target_index w of
        (Inl err, w') \<Rightarrow> (Inl err, connected_set, w')
      | (Inr b, w') \<Rightarrow>
          connect_selected e n new_node_index rest
            ((if b then insert new_node_index connected_set else connected_set), w'))"

text \<open>
  The outer loop, over the new nodes. The result is None when the list offered for a
  node is not a possible result of \<open>random.choices\<close> (no run of the program draws it).
\<close>

fun attach_nodes ::
  "env \<Rightarrow> nat \<Rightarrow> nat \<Rightarrow> nat list \<Rightarrow> nat list stream \<Rightarrow> nat set \<times> world
     \<Rightarrow> ((error + unit) \<times> nat set \<times> world) option" where
  "attach_nodes e n m [] draws (connected_set, w) = Some (Inr (), connected_set, w)"
| "attach_nodes e n m (new_node_index # rest) draws (connected_set, w) =
     (let selected = shd draws in
      if \<not> choices_ok connected_set (min m (card connected_set)) selected then None
      else (case connect_selected e n new_node_index selected (connected_set, w) of
              (Inl err, st) \<Rightarrow> Some (Inl err, st)
            | (Inr u, st) \<Rightarrow> attach_nodes e n m rest (stl draws) st))"

definition create_barabasi_albert_topology ::
  "env \<Rightarrow> nat \<Rightarrow> int \<Rightarrow> nat list stream \<Rightarrow> world \<Rightarrow> ((error + unit) \<times> world) option" where
  "create_barabasi_albert_topology e n m draws w =
     (if m < 1 \<or> int n \<le> m
      then Some (Inl (ValueError
             ''Parameter 'm' must be >= 1 and less than the number of nodes''), w)
      else map_option (\<lambda>(r, connected_set, w'). (r, w'))
             (attach_nodes e n (nat m) [1..<n] draws ({0}, w)))"

subsection \<open>read_connection_matrix\<close>

text \<open>
  The filter on the peer sessions:
  \<open>any(stream.get("Protocol") == "/ipfs/lan/kad/1.0.0" for stream in peer.get("Streams", []))\<close>.
\<close>

definition is_kad :: "peer_info \<Rightarrow> bool" where
  "is_kad peer = list_ex (\<lambda>stream. Protocol stream = Some ''/ipfs/lan/kad/1.0.0'') (Streams peer)"

text \<open>
  \<open>matrix[i][j] = 1\<close>. The matrix is a list of \<open>n\<close> rows of length \<open>n\<close> and both indices
  come from \<open>range(self.num_nodes)\<close>, so the assignment is always in range.
\<close>

definition set_entry :: "int list list \<Rightarrow> nat \<Rightarrow> nat \<Rightarrow> int list list" where
  "set_entry matrix i j = matrix[i := (matrix ! i)[j := 1]]"

text \<open>
  One round of the innermost loop: \<open>if self.get_node_id(j) == peer_id: matrix[i][j] = 1\<close>.
  The identity of node \<open>j\<close> is fetched anew at every round; None (a failed fetch, or
  JSON null) compares equal to a peer entry without a \<open>Peer\<close> key.
\<close>

definition check_node ::
  "env \<Rightarrow> nat \<Rightarrow> nat \<Rightarrow> string option \<Rightarrow> nat \<Rightarrow> int list list \<times> world
     \<Rightarrow> (error + unit) \<times> int list list \<times> world" where
  "check_node e n i peer_id j st =
     (case st of (matrix, w) \<Rightarrow>
        (case get_node_id e n j w of
           (Inl err, w') \<Rightarrow> (Inl err, matrix, w')
         | (Inr v, w') \<Rightarrow> (Inr (), (if v = peer_id then set_entry matrix i j else matrix), w')))"

text \<open>The loop \<open>for j in range(self.num_nodes)\<close> for one peer session.\<close>

definition mark_peer ::
  "env \<Rightarrow> nat \<Rightarrow> nat \<Rightarrow> peer_info \<Rightarrow> int list list \<times> world
     \<Rightarrow> (error + unit) \<times> int list list \<times> world" where
  "mark_peer e n i peer st = for_each (check_node e n i (Peer peer)) [0..<n] st"

text \<open>
  The body of the loop over the nodes, with its \<open>try\<close>: whatever is raised inside is
  caught (and printed), the entries written so far stay, and the loop goes on with the
  next node.
\<close>

definition read_node :: "env \<Rightarrow> nat \<Rightarrow> nat \<Rightarrow> int list list \<times> world \<Rightarrow> int list list \<times> world" where
  "read_node e n i st =
     (case st of (matrix, w) \<Rightarrow>
        (case post_swarm_peers e (clock w) i of
           PeersRaised \<Rightarrow> (matrix, tick w)
         | PeersReply code peers \<Rightarrow>
             if code = 200
             then (if peers = [] then (matrix, tick w)
                   else snd (for_each (mark_peer e n i) (filter is_kad peers) (matrix, tick w)))
             else (matrix, tick w)))"

text \<open>
  \<open>read_connection_matrix\<close> prints the matrix and returns nothing; the model returns the
  matrix it prints.
\<close>

definition read_connection_matrix :: "env \<Rightarrow> nat \<Rightarrow> world \<Rightarrow> int list list \<times> world" where
  "read_connection_matrix e n w =
     fold (read_node e n) [0..<n] (replicate n (replicate n 0), w)"

text \<open>
  What \<open>get_node_id(j)\<close> returns when the request is made at time \<open>t\<close> (for \<open>j\<close> in
  range): the value the cluster reports, or None when the request fails.
\<close>

definition node_id_at :: "env \<Rightarrow> nat \<Rightarrow> nat \<Rightarrow> string option" where
  "node_id_at e t j = (case post_id e t j of IdValue v \<Rightarrow> v | IdRaised \<Rightarrow> None)"

text \<open>
  The shape of the matrix (\<open>n\<close> rows of length \<open>n\<close>), and the time at which
  \<open>read_connection_matrix\<close> asks node \<open>i\<close> for its peers: the clock after the nodes
  before \<open>i\<close> have been dealt with.
\<close>

definition square :: "nat \<Rightarrow> int list list \<Rightarrow> bool" where
  "square n matrix \<longleftrightarrow> length matrix = n \<and> (\<forall>r<n. length (matrix ! r) = n)"

definition asked_at :: "env \<Rightarrow> nat \<Rightarrow> world \<Rightarrow> nat \<Rightarrow> nat" where
  "asked_at e n w i =
     clock (snd (fold (read_node e n) [0..<i] (replicate n (replicate n 0), w)))"

subsection \<open>main\<close>

datatype topology_kind = Ring | Grid | Full | Barabasi

record args =
  topology :: "topology_kind option"
  nodes :: int
  matrix_only :: bool

definition topology_name :: "topology_kind \<Rightarrow> string" where
  "topology_name k = (case k of Ring \<Rightarrow> ''ring'' | Grid \<Rightarrow> ''grid'' | Full \<Rightarrow> ''full''
                      | Barabasi \<Rightarrow> ''barabasi'')"

text \<open>\<open>f'{type(e).__name__}: {str(e)}'\<close>.\<close>

definition describe :: "error \<Rightarrow> string" where
  "describe err = (case err of
      ValueError msg \<Rightarrow> ''ValueError: '' @ msg
    | IndexError \<Rightarrow> ''IndexError: list index out of range''
    | RequestError \<Rightarrow> ''RequestException: '')"

definition create_topology ::
  "env \<Rightarrow> nat \<Rightarrow> topology_kind \<Rightarrow> nat list stream \<Rightarrow> world \<Rightarrow> ((error + unit) \<times> world) option" where
  "create_topology e n k draws w = (case k of
      Ring \<Rightarrow> Some (create_ring_topology e n w)
    | Grid \<Rightarrow> Some (create_grid_topology e n w)
    | Full \<Rightarrow> Some (create_fully_connected_topology e n w)
    | Barabasi \<Rightarrow> create_barabasi_albert_topology e n 2 draws w)"

text \<open>
  \<open>main\<close>: the manager is built over \<open>range(args.nodes)\<close> names (none for a negative
  count) and starts a new log file when a topology is asked for; then one action runs,
  and exactly one row is appended to topology.csv, also when the action raises (the
  exception is then raised again).
\<close>

definition main :: "env \<Rightarrow> args \<Rightarrow> nat list stream \<Rightarrow> world \<Rightarrow> ((error + unit) \<times> world) option" where
  "main e a draws w0 =
     (let n = nat (nodes a);
          w = (if topology a \<noteq> None then w0\<lparr>topology_log := []\<rparr> else w0)
      in if matrix_only a
         then Some (Inr (), log_execution n ''matrix_read'' ''completed'' []
                              (snd (read_connection_matrix e n w)))
         else (case topology a of
                 Some k \<Rightarrow>
                   (case create_topology e n k draws w of
                      None \<Rightarrow> None
                    | Some (Inl err, w') \<Rightarrow>
                        Some (Inl err, log_execution n ''error'' ''failed'' (describe err) w')
                    | Some (Inr u, w') \<Rightarrow>
                        Some (Inr (), log_execution n (''topology_'' @ topology_name k)
                                        ''completed'' [] (snd (read_connection_matrix e n w'))))
               | None \<Rightarrow>
                   Some (Inr (), log_execution n ''invalid_args'' ''error''
                                   ''No action specified'' w)))"

subsection \<open>The pairs the loops of the constructors go through\<close>

text \<open>
  The (source, target) pairs in the order in which the loops of the grid and of the full
  mesh reach them; the lemmas below show that these are the calls the constructors make.
\<close>

definition cell_edges :: "nat \<Rightarrow> nat \<Rightarrow> nat \<Rightarrow> (nat \<times> nat) list" where
  "cell_edges s i j =
     (if j < s - 1 then [(i * s + j, i * s + j + 1)] else [])
     @ (if i < s - 1 then [(i * s + j, i * s + j + s)] else [])"

definition grid_edges :: "nat \<Rightarrow> (nat \<times> nat) list" where
  "grid_edges s = concat (map (\<lambda>i. concat (map (cell_edges s i) [0..<s])) [0..<s])"

definition full_edges :: "nat \<Rightarrow> (nat \<times> nat) list" where
  "full_edges n = concat (map (\<lambda>i. map (Pair i) [i + 1..<n]) [0..<n])"

subsection \<open>Concrete inputs\<close>

text \<open>
  A healthy cluster (every name resolves, every node reports the identity \<open>id<i>\<close> as
  a one-character string, every request is answered 200 with no peers) and the world
  before the first request.
\<close>

definition healthy :: env where
  "healthy = \<lparr>gethostbyname = (\<lambda>t i. Resolved ''10.0.0.1''),
              post_id = (\<lambda>t i. IdValue (Some [char_of i])),
              post_swarm_connect = (\<lambda>t i ip pid. ConnStatus 200),
              post_swarm_peers = (\<lambda>t i. PeersReply 200 [])\<rparr>"

text \<open>A cluster like the healthy one, except that every connect command is answered 500.\<close>

definition refusing :: env where
  "refusing = healthy\<lparr>post_swarm_connect := (\<lambda>t i ip pid. ConnStatus 500)\<rparr>"

text \<open>
  Three nodes, of which nodes 1 and 2 report the same identity \<open>B\<close>. Node 0 has three
  peer sessions: \<open>B\<close> over the DHT protocol, \<open>A\<close> over bitswap only, and the unknown \<open>Z\<close>
  over the DHT protocol; the peer query of node 1 raises, that of node 2 is answered 500.
\<close>

definition kad_stream :: stream_info where
  "kad_stream = \<lparr>Protocol = Some ''/ipfs/lan/kad/1.0.0''\<rparr>"

definition peer_B :: peer_info where
  "peer_B = \<lparr>Peer = Some ''B'', Streams = [kad_stream]\<rparr>"

definition sessions_of_node_0 :: "peer_info list" where
  "sessions_of_node_0 =
     [peer_B,
      \<lparr>Peer = Some ''A'', Streams = [\<lparr>Protocol = Some ''/ipfs/bitswap/1.2.0''\<rparr>]\<rparr>,
      \<lparr>Peer = Some ''Z'', Streams = [kad_stream]\<rparr>]"

definition twins :: env where
  "twins = \<lparr>gethostbyname = (\<lambda>t i. Resolved ''10.0.0.1''),
            post_id = (\<lambda>t i. IdValue (Some (if i = 0 then ''A'' else ''B''))),
            post_swarm_connect = (\<lambda>t i ip pid. ConnStatus 200),
            post_swarm_peers = (\<lambda>t i. if i = 0 then PeersReply 200 sessions_of_node_0
                                       else if i = 1 then PeersRaised
                                       else PeersReply 500 [])\<rparr>"

definition fresh :: world where
  "fresh = \<lparr>clock = 0, calls = [], topology_log = []\<rparr>"

section \<open>The workload simulator (scripts/simulator.py)\<close>

subsection \<open>The operation log, upload_file and download_file\<close>

text \<open>
  One row of the simulation log after its header: node, action, file size, content
  identifier, success. The timestamp and the duration are wall-clock time and are left
  out.
\<close>

datatype action = Upload | Download

record op_row =
  row_node :: nat
  row_op :: action
  file_size :: int
  cid :: string
  success :: bool

definition log_action ::
  "nat \<Rightarrow> action \<Rightarrow> int \<Rightarrow> string \<Rightarrow> bool \<Rightarrow> op_row list \<Rightarrow> op_row list" where
  "log_action node act sz c ok rows =
     rows @ [\<lparr>row_node = node, row_op = act, file_size = sz, cid = c, success = ok\<rparr>]"

text \<open>
  How the one request of an operation ends: with a payload (the \<open>Hash\<close> of
  \<open>/api/v0/add\<close>, the content of \<open>/api/v0/cat\<close>), with \<open>TimeoutError\<close>, or with any other
  exception (a refused connection, the \<open>ClientResponseError\<close> of \<open>raise_for_status\<close>, a
  body without \<open>Hash\<close>).
\<close>

datatype response = Ok string | TimedOut | Failed

text \<open>
  \<open>upload_file\<close> and \<open>download_file\<close>, from the point where the request has ended. Each
  sends one request and has one \<open>except TimeoutError\<close> clause; any other exception leaves
  the function before a row is written. The payload of an upload is random bytes and
  is not modelled, only its size.
\<close>

definition upload_file ::
  "nat \<Rightarrow> int \<Rightarrow> response \<Rightarrow> op_row list \<Rightarrow> (error + string option) \<times> op_row list" where
  "upload_file node_idx sz resp rows =
     (case resp of
        Ok c \<Rightarrow> (Inr (Some c), log_action node_idx Upload sz c True rows)
      | TimedOut \<Rightarrow> (Inr None, log_action node_idx Upload sz ''error'' False rows)
      | Failed \<Rightarrow> (Inl RequestError, rows))"

definition download_file ::
  "nat \<Rightarrow> string \<Rightarrow> response \<Rightarrow> op_row list \<Rightarrow> (error + string option) \<times> op_row list" where
  "download_file node_idx c resp rows =
     (case resp of
        Ok content \<Rightarrow>
          (Inr (Some content), log_action node_idx Download (int (length content)) c True rows)
      | TimedOut \<Rightarrow> (Inr None, log_action node_idx Download 0 c False rows)
      | Failed \<Rightarrow> (Inl RequestError, rows))"

subsection \<open>run_operation\<close>

text \<open>
  \<open>random.randint(a, b)\<close> returns an integer \<open>N\<close> with \<open>a \<le> N \<le> b\<close>, both ends
  included, each with the same probability; it raises ValueError when the range is
  empty. \<open>randint_outcomes\<close> lists the equally likely results, and the probability of
  an event is the share of the results in it.
\<close>

definition randint_outcomes :: "int \<Rightarrow> int \<Rightarrow> int list" where
  "randint_outcomes a b = [a..b]"


text \<open>The test \<open>op >= len(uploaded_files)\<close> that sends \<open>run_operation\<close> to its upload branch.\<close>

definition upload_chosen :: "string list \<Rightarrow> int \<Rightarrow> bool" where
  "upload_chosen uploaded op \<longleftrightarrow> int (length uploaded) \<le> op"

text \<open>The request an operation sends: an upload of a size to a node, or a download of an
  identifier from a node.\<close>

datatype request = Add nat int | Cat nat string

text \<open>
  \<open>run_operation\<close> up to the point where its request is sent. The three random draws
  (\<open>op\<close>, \<open>node\<close>, and the size \<open>int(np.random.exponential(mean_size))\<close>, which is not
  negative) are inputs; the result is None when a draw is not a possible one. With no
  node at all, \<open>random.randint(0, -1)\<close> raises ValueError.
\<close>

definition run_operation_start ::
  "nat \<Rightarrow> int \<Rightarrow> string list \<Rightarrow> int \<Rightarrow> int \<Rightarrow> int \<Rightarrow> (error + request) option" where
  "run_operation_start num_nodes max_size uploaded op node sz =
     (if op \<notin> set (randint_outcomes 0 (int (length uploaded) + 1)) then None
      else if num_nodes = 0 then Some (Inl (ValueError ''empty range for randrange()''))
      else if node \<notin> set (randint_outcomes 0 (int num_nodes - 1)) then None
      else if upload_chosen uploaded op
        then (if sz < 0 then None else Some (Inr (Add (nat node) (min sz max_size))))
      else Some (Inr (Cat (nat node) (uploaded ! nat op))))"

text \<open>
  \<open>run_operation\<close> from the point where its request has ended: the identifier of a
  successful upload is appended to the shared list.
\<close>

definition run_operation_finish ::
  "request \<Rightarrow> response \<Rightarrow> string list \<times> op_row list
     \<Rightarrow> (error + unit) \<times> string list \<times> op_row list" where
  "run_operation_finish req resp st =
     (case st of (uploaded, rows) \<Rightarrow>
        (case req of
           Add node sz \<Rightarrow>
             (case upload_file node sz resp rows of
                (Inl err, rows') \<Rightarrow> (Inl err, uploaded, rows')
              | (Inr None, rows') \<Rightarrow> (Inr (), uploaded, rows')
              | (Inr (Some c), rows') \<Rightarrow> (Inr (), uploaded @ [c], rows'))
         | Cat node c \<Rightarrow>
             (case download_file node c resp rows of
                (Inl err, rows') \<Rightarrow> (Inl err, uploaded, rows')
              | (Inr content, rows') \<Rightarrow> (Inr (), uploaded, rows'))))"

subsection \<open>run_simulation: the tasks and the event loop\<close>

text \<open>
  A task of \<open>_delayed_operation\<close> sleeps until its offset, runs \<open>run_operation\<close> up to its
  request, waits for the request to end, and finishes or raises. The state of a run:
  the shared list \<open>uploaded_files\<close>, the rows of the log, the tasks in the order of their
  creation, and the requests sent so far with the index of the task that sent each
  (instrumentation).
\<close>

datatype task = Sleeping real | Waiting request | Done | Raised error

record sim =
  uploaded_files :: "string list"
  log_rows :: "op_row list"
  tasks :: "task list"
  requests :: "(nat \<times> request) list"

text \<open>
  The loop of \<open>run_simulation\<close>: \<open>delay\<close> starts at 0 and grows by one sample of
  \<open>np.random.exponential(mean_delay)\<close> per task. The samples are an input (a stream, of
  which \<open>range(num_operations)\<close> consumes one per round). \<open>delay += sample\<close> is the
  addition of two doubles: the exact sum, rounded to a double. A double is modelled by
  the real number it is, and the rounded addition is the parameter \<open>fadd\<close> of the model.
  About \<open>fadd\<close> the theorems assume at most that \<open>x \<le> fadd x y\<close> when \<open>0 \<le> y\<close>, which
  holds of the addition of doubles (rounding is monotone and leaves a double as it is).
\<close>

fun schedule :: "(real \<Rightarrow> real \<Rightarrow> real) \<Rightarrow> real \<Rightarrow> real list \<Rightarrow> real list" where
  "schedule fadd delay [] = []"
| "schedule fadd delay (x # xs) = fadd delay x # schedule fadd (fadd delay x) xs"

definition run_simulation :: "(real \<Rightarrow> real \<Rightarrow> real) \<Rightarrow> int \<Rightarrow> real stream \<Rightarrow> sim" where
  "run_simulation fadd num_operations samples =
     \<lparr>uploaded_files = [], log_rows = [],
      tasks = map Sleeping (schedule fadd 0 (stake (nat num_operations) samples)),
      requests = []\<rparr>"

text \<open>
  \<open>await asyncio.gather(*operations)\<close>: it returns when every task is done, and raises
  as soon as one task has raised (\<open>return_exceptions\<close> is left at False); until then
  \<open>run_simulation\<close> is suspended. \<open>gather\<close> cancels no task when it raises. When
  several tasks have raised, \<open>gather\<close> has raised the exception of the one that raised
  first in time; \<open>first_error\<close> names the first in the order of creation, which is the
  same one at the moment of the first raise.
\<close>

datatype run_status = Running | Returned | Propagated error

fun first_error :: "task list \<Rightarrow> error option" where
  "first_error [] = None"
| "first_error (Raised err # ts) = Some err"
| "first_error (t # ts) = first_error ts"

definition gather :: "task list \<Rightarrow> run_status" where
  "gather ts = (case first_error ts of
      Some err \<Rightarrow> Propagated err
    | None \<Rightarrow> if list_all (\<lambda>t. t = Done) ts then Returned else Running)"

text \<open>
  What can happen next while the event loop runs: a sleeping task whose offset is the
  least among the sleeping ones wakes up and runs to its request (with its three draws),
  or the request of a waiting task ends (with a response). The order of these events is
  the environment's choice, and so is the moment at which the loop is torn down: as
  \<open>gather\<close> cancels nothing, the events go on after a task has raised and \<open>gather\<close> has
  handed its exception to \<open>run_simulation\<close>. \<open>step\<close> is None for an event that cannot
  happen in the state.
\<close>

datatype event = Wake nat int int int | Reply nat response

definition may_wake :: "real \<Rightarrow> task list \<Rightarrow> bool" where
  "may_wake d ts = list_all (\<lambda>t. case t of Sleeping d' \<Rightarrow> d \<le> d' | _ \<Rightarrow> True) ts"

definition step :: "nat \<Rightarrow> int \<Rightarrow> event \<Rightarrow> sim \<Rightarrow> sim option" where
  "step num_nodes max_size ev s =
     (case ev of
        Wake i op node sz \<Rightarrow>
          (if length (tasks s) \<le> i then None
           else (case tasks s ! i of
               Sleeping d \<Rightarrow>
                 (if \<not> may_wake d (tasks s) then None
                  else (case run_operation_start num_nodes max_size (uploaded_files s) op node sz of
                      None \<Rightarrow> None
                    | Some (Inl err) \<Rightarrow> Some (s\<lparr>tasks := (tasks s)[i := Raised err]\<rparr>)
                    | Some (Inr req) \<Rightarrow>
                        Some (s\<lparr>tasks := (tasks s)[i := Waiting req],
                                requests := requests s @ [(i, req)]\<rparr>)))
             | _ \<Rightarrow> None))
      | Reply i resp \<Rightarrow>
          (if length (tasks s) \<le> i then None
           else (case tasks s ! i of
               Waiting req \<Rightarrow>
                 (case run_operation_finish req resp (uploaded_files s, log_rows s) of
                    (Inl err, uploaded, rows) \<Rightarrow>
                      Some (s\<lparr>uploaded_files := uploaded, log_rows := rows,
                              tasks := (tasks s)[i := Raised err]\<rparr>)
                  | (Inr u, uploaded, rows) \<Rightarrow>
                      Some (s\<lparr>uploaded_files := uploaded, log_rows := rows,
                              tasks := (tasks s)[i := Done]\<rparr>))
             | _ \<Rightarrow> None)))"

fun run :: "nat \<Rightarrow> int \<Rightarrow> event list \<Rightarrow> sim \<Rightarrow> sim option" where
  "run num_nodes max_size [] s = Some s"
| "run num_nodes max_size (ev # evs) s =
     (case step num_nodes max_size ev s of
        None \<Rightarrow> None
      | Some s' \<Rightarrow> run num_nodes max_size evs s')"

subsection \<open>A concrete run\<close>

text \<open>
  Three operations with the inter-arrival samples 1, 2, 1 (offsets 1, 3, 4: these sums
  are exact in doubles, so that \<open>fadd\<close> is \<open>(+)\<close> on them) on 16 nodes
  with \<open>max_size = 100\<close>: task 0 wakes and uploads 50 bytes to node 3, the upload returns
  the identifier \<open>QmA\<close>; task 1 wakes and downloads \<open>QmA\<close> from node 5; task 2 wakes and
  uploads (a size drawn as 500, clipped to 100) to node 7; both requests time out.
\<close>

definition arrivals :: "real stream" where
  "arrivals = 1 ## 2 ## sconst 1"

definition three_operations :: "event list" where
  "three_operations =
     [Wake 0 0 3 50, Reply 0 (Ok ''QmA''), Wake 1 0 5 0, Wake 2 2 7 500,
      Reply 1 TimedOut, Reply 2 TimedOut]"

subsection \<open>Invariants of a run\<close>

text \<open>
  What holds in every state of a run (proved below): the shared list is the list of the
  identifiers of the successful upload rows, in order; no task has sent two requests,
  only tasks that woke up have sent one, and every waiting or finished task has sent
  one; every download, requested or logged, is of an identifier in the shared list; a
  failed row carries the placeholders; there is one row per finished task; and the first
  request of a run is an upload.
\<close>

definition files_logged :: "sim \<Rightarrow> bool" where
  "files_logged s \<longleftrightarrow>
     uploaded_files s = map cid (filter (\<lambda>r. row_op r = Upload \<and> success r) (log_rows s))"

definition requests_sound :: "sim \<Rightarrow> bool" where
  "requests_sound s \<longleftrightarrow>
     distinct (map fst (requests s))
     \<and> (\<forall>(i, req) \<in> set (requests s). i < length (tasks s) \<and> (\<forall>d. tasks s ! i \<noteq> Sleeping d))
     \<and> (\<forall>i<length (tasks s). \<forall>req. tasks s ! i = Waiting req \<longrightarrow> (i, req) \<in> set (requests s))
     \<and> (\<forall>i<length (tasks s). tasks s ! i = Done \<longrightarrow> i \<in> fst ` set (requests s))"

definition downloads_known :: "sim \<Rightarrow> bool" where
  "downloads_known s \<longleftrightarrow>
     (\<forall>(i, req) \<in> set (requests s). \<forall>node c. req = Cat node c \<longrightarrow> c \<in> set (uploaded_files s))
     \<and> (\<forall>r \<in> set (log_rows s). row_op r = Download \<longrightarrow> cid r \<in> set (uploaded_files s))"

definition failures_marked :: "sim \<Rightarrow> bool" where
  "failures_marked s \<longleftrightarrow>
     (\<forall>r \<in> set (log_rows s). \<not> success r \<longrightarrow>
        (row_op r = Upload \<longrightarrow> cid r = ''error'') \<and> (row_op r = Download \<longrightarrow> file_size r = 0))"

definition rows_counted :: "sim \<Rightarrow> bool" where
  "rows_counted s \<longleftrightarrow> length (log_rows s) = length (filter (\<lambda>t. t = Done) (tasks s))"

definition first_is_upload :: "sim \<Rightarrow> bool" where
  "first_is_upload s \<longleftrightarrow>
     (case requests s of
        [] \<Rightarrow> uploaded_files s = []
      | (i, req) # rest \<Rightarrow> (\<exists>node sz. req = Add node sz))"

section \<open>Properties of the topology manager\<close>

lemma connect_nodes_in_range:
  assumes "source_index < n" and "target_index < n"
  shows "\<exists>b w'. connect_nodes e n source_index target_index w = (Inr b, w')
           \<and> calls w' = calls w @ [(source_index, target_index)]
           \<and> topology_log w' = topology_log w"
  using assms
  by (auto simp: connect_nodes_def resolve_container_ip_def get_node_id_def
      connect_failed_def tick_def Let_def
      split: dns_reply.splits id_reply.splits connect_reply.splits)

lemma attempt_in_range:
  assumes "i < n" and "j < n"
  shows "\<exists>w'. attempt e n i j w = (Inr (), w')
           \<and> calls w' = calls w @ [(i, j)]
           \<and> topology_log w' = topology_log w"
proof -
  from connect_nodes_in_range [OF assms, of e w]
  obtain b w' where "connect_nodes e n i j w = (Inr b, w')"
    and "calls w' = calls w @ [(i, j)]" and "topology_log w' = topology_log w"
    by blast
  then show ?thesis by (simp add: attempt_def)
qed

text \<open>
  A loop whose body never raises on the elements it is run on, and appends \<open>g x\<close> to the
  calls, appends the concatenation of the \<open>g x\<close> and leaves the log alone.
\<close>

lemma for_each_calls:
  assumes "\<And>x w. x \<in> set xs \<Longrightarrow>
             \<exists>w'. body x w = (Inr (), w') \<and> calls w' = calls w @ g x
                  \<and> topology_log w' = topology_log w"
  shows "\<exists>w'. for_each body xs w = (Inr (), w') \<and> calls w' = calls w @ concat (map g xs)
            \<and> topology_log w' = topology_log w"
  using assms
proof (induction xs arbitrary: w)
  case Nil
  then show ?case by simp
next
  case (Cons x xs)
  from Cons.prems [of x w] obtain w1 where
    b: "body x w = (Inr (), w1)" and c: "calls w1 = calls w @ g x"
    and l: "topology_log w1 = topology_log w"
    by auto
  from Cons.IH [of w1] Cons.prems obtain w2 where
    "for_each body xs w1 = (Inr (), w2)" and "calls w2 = calls w1 @ concat (map g xs)"
    and "topology_log w2 = topology_log w1"
    by (meson list.set_intros(2))
  with b c l show ?case by simp
qed

lemma ring_calls:
  "\<exists>w'. create_ring_topology e n w = (Inr (), w')
      \<and> calls w' = calls w @ map (\<lambda>i. (i, (i + 1) mod n)) [0..<n]
      \<and> topology_log w' = topology_log w"
proof -
  have "\<exists>w'. for_each (\<lambda>i. attempt e n i ((i + 1) mod n)) [0..<n] w = (Inr (), w')
          \<and> calls w' = calls w @ concat (map (\<lambda>i. [(i, (i + 1) mod n)]) [0..<n])
          \<and> topology_log w' = topology_log w"
    by (rule for_each_calls) (simp add: attempt_in_range)
  moreover have "concat (map (\<lambda>i. [(i, (i + 1) mod n)]) [0..<n])
      = map (\<lambda>i. (i, (i + 1) mod n)) [0..<n]"
    by (induction n) simp_all
  ultimately show ?thesis by (simp add: create_ring_topology_def)
qed


subsection \<open>Counting in the lists a loop produces\<close>

lemma count_list_concat_map:
  "count_list (concat (map f xs)) y = sum_list (map (\<lambda>x. count_list (f x) y) xs)"
  by (induction xs) simp_all

lemma sum_list_delta:
  "sum_list (map (\<lambda>x. if x = a \<and> P x then (c::nat) else 0) [m..<n])
     = (if m \<le> a \<and> a < n \<and> P a then c else 0)"
  by (induction n) auto

lemma count_list_map_Pair:
  "count_list (map (Pair i) xs) (a, b) = (if i = a then count_list xs b else 0)"
  by (induction xs) auto

lemma count_list_upt: "count_list [m..<n] b = (if m \<le> b \<and> b < n then 1 else 0)"
  by (induction n) auto

lemma sum_list_Suc: "(\<Sum>x\<leftarrow>xs. Suc (f x)) = (\<Sum>x\<leftarrow>xs. f x) + length xs"
  by (induction xs) simp_all

subsection \<open>The full mesh\<close>

lemma full_calls:
  "\<exists>w'. create_fully_connected_topology e n w = (Inr (), w')
      \<and> calls w' = calls w @ full_edges n
      \<and> topology_log w' = topology_log w"
proof -
  have "\<exists>w'. create_fully_connected_topology e n w = (Inr (), w')
      \<and> calls w' = calls w
           @ concat (map (\<lambda>i. concat (map (\<lambda>j. [(i, j)]) [i + 1..<n])) [0..<n])
      \<and> topology_log w' = topology_log w"
    unfolding create_fully_connected_topology_def
    by (rule for_each_calls, rule for_each_calls) (simp add: attempt_in_range)
  then show ?thesis by (simp add: full_edges_def)
qed

lemma full_count:
  "count_list (full_edges n) (a, b) = (if a < b \<and> b < n then 1 else 0)"
proof -
  have "(\<lambda>i. count_list (map (Pair i) [i + 1..<n]) (a, b))
      = (\<lambda>i. if i = a \<and> (i < b \<and> b < n) then 1 else 0)"
    by (auto simp: fun_eq_iff count_list_map_Pair count_list_upt)
  then show ?thesis
    by (auto simp: full_edges_def count_list_concat_map sum_list_delta)
qed

lemma gauss: "(\<Sum>i\<leftarrow>[0..<n]. n - Suc i) * 2 = n * (n - 1)"
proof (induction n)
  case 0
  then show ?case by simp
next
  case (Suc n)
  have "(\<Sum>i\<leftarrow>[0..<n]. Suc n - Suc i) = (\<Sum>i\<leftarrow>[0..<n]. Suc (n - Suc i))"
    by (rule arg_cong [where f = sum_list]) (auto simp: Suc_diff_Suc)
  also have "\<dots> = (\<Sum>i\<leftarrow>[0..<n]. n - Suc i) + n"
    by (simp add: sum_list_Suc)
  finally show ?case using Suc by (cases n) (simp_all add: algebra_simps)
qed

lemma full_length: "length (full_edges n) = n * (n - 1) div 2"
proof -
  have "length (full_edges n) = (\<Sum>i\<leftarrow>[0..<n]. n - Suc i)"
    by (simp add: full_edges_def length_concat comp_def)
  with gauss [of n] show ?thesis by simp
qed

subsection \<open>The grid\<close>

lemma floor_sqrt_bounds:
  "floor_sqrt n * floor_sqrt n \<le> n \<and> n < Suc (floor_sqrt n) * Suc (floor_sqrt n)"
  by (induction n) (auto simp: Let_def)

lemma floor_sqrt_square: "floor_sqrt (s * s) = s"
proof (rule ccontr)
  assume ne: "floor_sqrt (s * s) \<noteq> s"
  let ?r = "floor_sqrt (s * s)"
  from floor_sqrt_bounds [of "s * s"]
  have lo: "?r * ?r \<le> s * s" and hi: "s * s < Suc ?r * Suc ?r" by simp_all
  from ne consider "?r < s" | "s < ?r" by linarith
  then show False
  proof cases
    case 1
    then have a: "Suc ?r \<le> s" by (rule Suc_leI)
    have "Suc ?r * Suc ?r \<le> s * s" by (rule mult_le_mono [OF a a])
    with hi show False by simp
  next
    case 2
    then have b: "Suc s \<le> ?r" by (rule Suc_leI)
    have "Suc s * Suc s \<le> ?r * ?r" by (rule mult_le_mono [OF b b])
    with lo show False by simp
  qed
qed

lemma cell_less:
  assumes "i < s" and "j < (s::nat)"
  shows "i * s + j < s * s"
proof -
  have "i * s + j < Suc i * s" using assms by simp
  also have "\<dots> \<le> s * s" using assms by (intro mult_le_mono1) simp
  finally show ?thesis .
qed

lemma cell_right_less:
  assumes "i < s" and "j < s - (1::nat)"
  shows "i * s + j + 1 < s * s"
  using cell_less [of i s "j + 1"] assms by (simp add: less_diff_conv)

lemma cell_down_less:
  assumes "i < s - (1::nat)" and "j < s"
  shows "i * s + j + s < s * s"
  using cell_less [of "i + 1" s j] assms by (simp add: less_diff_conv algebra_simps)

lemma grid_cell_calls:
  assumes "i < s" and "j < s"
  shows "\<exists>w'. grid_cell e (s * s) s i j w = (Inr (), w')
     \<and> calls w' = calls w @ cell_edges s i j
     \<and> topology_log w' = topology_log w"
proof -
  let ?c = "i * s + j"
  have c: "?c < s * s" using assms by (rule cell_less)
  obtain w1 where
    r: "(if j < s - 1 then attempt e (s * s) ?c (?c + 1) w else (Inr (), w)) = (Inr (), w1)"
    and rc: "calls w1 = calls w @ (if j < s - 1 then [(?c, ?c + 1)] else [])"
    and rl: "topology_log w1 = topology_log w"
    using attempt_in_range [OF c cell_right_less [OF assms(1)], of j e w]
    by (cases "j < s - 1") auto
  obtain w2 where
    d: "(if i < s - 1 then attempt e (s * s) ?c (?c + s) w1 else (Inr (), w1)) = (Inr (), w2)"
    and dc: "calls w2 = calls w1 @ (if i < s - 1 then [(?c, ?c + s)] else [])"
    and dl: "topology_log w2 = topology_log w1"
    using attempt_in_range [OF c cell_down_less [OF _ assms(2)], of i e w1]
    by (cases "i < s - 1") auto
  show ?thesis
    using r rc rl d dc dl by (simp add: grid_cell_def cell_edges_def Let_def)
qed

lemma grid_calls:
  "\<exists>w'. create_grid_topology e (s * s) w = (Inr (), w')
     \<and> calls w' = calls w @ grid_edges s
     \<and> topology_log w' = topology_log w"
  unfolding create_grid_topology_def Let_def floor_sqrt_square grid_edges_def
  by (simp only: refl if_False not_True_eq_False, rule for_each_calls, rule for_each_calls)
     (rule grid_cell_calls; simp)

lemma grid_not_square:
  assumes "\<not> (\<exists>s. n = s * s)"
  shows "create_grid_topology e n w =
     (Inl (ValueError ''Number of nodes must be a perfect square for grid topology''), w)"
proof -
  have "floor_sqrt n * floor_sqrt n \<noteq> n" using assms by metis
  then show ?thesis by (simp add: create_grid_topology_def Let_def)
qed

lemma cell_index:
  assumes "j < (s::nat)"
  shows "a = i * s + j \<longleftrightarrow> j = a mod s \<and> i = a div s"
  using assms by auto

lemma sum_cells:
  "(\<Sum>i\<leftarrow>[0..<s]. \<Sum>j\<leftarrow>[0..<s]. if a = i * s + j \<and> P i j then (c::nat) else 0)
     = (if a < s * s \<and> P (a div s) (a mod s) then c else 0)"
proof (cases "s = 0")
  case True
  then show ?thesis by simp
next
  case False
  have inner: "(\<Sum>j\<leftarrow>[0..<s]. if a = i * s + j \<and> P i j then c else 0)
      = (if i = a div s \<and> P i (a mod s) then c else 0)" for i
  proof -
    have eq: "map (\<lambda>j. if a = i * s + j \<and> P i j then c else 0) [0..<s]
        = map (\<lambda>j. if j = a mod s \<and> (i = a div s \<and> P i j) then c else 0) [0..<s]"
      by (rule map_cong) (auto simp: cell_index)
    have "(\<Sum>j\<leftarrow>[0..<s]. if j = a mod s \<and> (i = a div s \<and> P i j) then c else 0)
        = (if i = a div s \<and> P i (a mod s) then c else 0)"
      using False by (simp add: sum_list_delta)
    then show ?thesis by (simp only: eq)
  qed
  show ?thesis
    using False by (simp add: inner sum_list_delta div_less_iff_less_mult cong: if_cong)
qed


lemma count_cell_edges:
  "count_list (cell_edges s i j) (a, b)
     = (if a = i * s + j \<and> (j < s - 1 \<and> b = a + 1) then 1 else 0)
       + (if a = i * s + j \<and> (i < s - 1 \<and> b = a + s) then 1 else 0)"
  by (auto simp: cell_edges_def)

lemma grid_count:
  "count_list (grid_edges s) (a, b)
     = (if a < s * s \<and> (b = a + 1 \<and> a mod s < s - 1 \<or> b = a + s \<and> a div s < s - 1)
        then 1 else 0)"
proof -
  have "count_list (grid_edges s) (a, b)
      = (\<Sum>i\<leftarrow>[0..<s]. \<Sum>j\<leftarrow>[0..<s].
            if a = i * s + j \<and> (j < s - 1 \<and> b = a + 1) then 1 else 0)
        + (\<Sum>i\<leftarrow>[0..<s]. \<Sum>j\<leftarrow>[0..<s].
            if a = i * s + j \<and> (i < s - 1 \<and> b = a + s) then 1 else 0)"
    by (simp add: grid_edges_def count_list_concat_map count_cell_edges sum_list_addf)
  also have "\<dots> = (if a < s * s \<and> (a mod s < s - 1 \<and> b = a + 1) then 1 else 0)
        + (if a < s * s \<and> (a div s < s - 1 \<and> b = a + s) then 1 else 0)"
    by (simp only: sum_cells)
  also have "\<dots> = (if a < s * s \<and> (b = a + 1 \<and> a mod s < s - 1 \<or> b = a + s \<and> a div s < s - 1)
        then 1 else 0)"
    by auto
  finally show ?thesis .
qed

lemma count_fst_cell_edges:
  "count_list (map fst (cell_edges s i j)) a
     = (if a = i * s + j \<and> j < s - 1 then 1 else 0)
       + (if a = i * s + j \<and> i < s - 1 then 1 else 0)"
  by (auto simp: cell_edges_def)

lemma grid_out_count:
  "count_list (map fst (grid_edges s)) a
     = (if a < s * s \<and> a mod s < s - 1 then 1 else 0)
       + (if a < s * s \<and> a div s < s - 1 then 1 else 0)"
proof -
  have "map fst (grid_edges s)
      = concat (map (\<lambda>i. concat (map (\<lambda>j. map fst (cell_edges s i j)) [0..<s])) [0..<s])"
    by (simp add: grid_edges_def map_concat comp_def)
  then have "count_list (map fst (grid_edges s)) a
      = (\<Sum>i\<leftarrow>[0..<s]. \<Sum>j\<leftarrow>[0..<s]. if a = i * s + j \<and> j < s - 1 then 1 else 0)
        + (\<Sum>i\<leftarrow>[0..<s]. \<Sum>j\<leftarrow>[0..<s]. if a = i * s + j \<and> i < s - 1 then 1 else 0)"
    by (simp add: count_list_concat_map count_fst_cell_edges sum_list_addf)
  then show ?thesis by (simp only: sum_cells)
qed

lemma grid_out_cell:
  assumes "i < s" and "j < s"
  shows "count_list (map fst (grid_edges s)) (i * s + j)
      = (if j < s - 1 then 1 else 0) + (if i < s - 1 then 1 else 0)"
proof -
  have "(i * s + j) mod s = j" and "(i * s + j) div s = i" using assms by simp_all
  moreover have "i * s + j < s * s" using assms by (rule cell_less)
  ultimately show ?thesis by (simp only: grid_out_count simp_thms)
qed

lemma cell_ex:
  "(\<exists>i<s. \<exists>j<s. a = i * s + j \<and> (b = a + (1::nat) \<and> j < s - 1 \<or> b = a + s \<and> i < s - 1))
     \<longleftrightarrow> (a < s * s \<and> (b = a + 1 \<and> a mod s < s - 1 \<or> b = a + s \<and> a div s < s - 1))"
  (is "?L \<longleftrightarrow> ?R")
proof
  assume ?L
  then obtain i j where ij: "i < s" "j < s" "a = i * s + j"
    and d: "b = a + 1 \<and> j < s - 1 \<or> b = a + s \<and> i < s - 1" by blast
  have "a mod s = j" and "a div s = i" and "a < s * s"
    using ij cell_less [of i s j] by simp_all
  with d show ?R by simp
next
  assume R: ?R
  then have "0 < s" by (cases s) auto
  with R have 1: "a div s < s" and 2: "a mod s < s" and 3: "a = (a div s) * s + a mod s"
    by (simp_all add: div_less_iff_less_mult)
  from R have 4: "b = a + 1 \<and> a mod s < s - 1 \<or> b = a + s \<and> a div s < s - 1" by simp
  show ?L
    apply (rule exI [of _ "a div s"], rule conjI [OF 1])
    apply (rule exI [of _ "a mod s"], rule conjI [OF 2])
    apply (rule conjI [OF 3 4])
    done
qed

lemma count_le_1_distinct:
  assumes "\<And>x. count_list xs x \<le> 1"
  shows "distinct xs"
  using assms
proof (induction xs)
  case Nil
  then show ?case by simp
next
  case (Cons a xs)
  from Cons.prems [of a] have "count_list xs a = 0" by simp
  then have "a \<notin> set xs" by (simp add: count_list_0_iff)
  moreover have "count_list xs x \<le> 1" for x
    using Cons.prems [of x] by (simp split: if_splits)
  ultimately show ?case using Cons.IH by simp
qed

lemma ring_no_self_loop:
  assumes "2 \<le> n" and "i < n"
  shows "(i + 1) mod n \<noteq> (i::nat)"
proof (cases "i + 1 < n")
  case True
  then show ?thesis by simp
next
  case False
  with assms have "i + 1 = n" by simp
  then have "(i + 1) mod n = 0" by simp
  with assms \<open>i + 1 = n\<close> show ?thesis by simp
qed

subsection \<open>Preferential attachment\<close>

lemma connect_selected_calls:
  assumes "k < n" and "set sel \<subseteq> {0..<n}"
  shows "\<exists>c' w'. connect_selected e n k sel (c, w) = (Inr (), c', w')
      \<and> calls w' = calls w @ map (Pair k) sel
      \<and> topology_log w' = topology_log w
      \<and> c \<subseteq> c' \<and> c' \<subseteq> insert k c"
  using assms(2)
proof (induction sel arbitrary: c w)
  case Nil
  then show ?case by auto
next
  case (Cons t sel)
  then have "t < n" by simp
  from connect_nodes_in_range [OF assms(1) this, of e w] obtain b w1 where
    1: "connect_nodes e n k t w = (Inr b, w1)" and 2: "calls w1 = calls w @ [(k, t)]"
    and 3: "topology_log w1 = topology_log w"
    by (elim exE conjE)
  let ?c1 = "if b then insert k c else c"
  from Cons.IH [of ?c1 w1] Cons.prems obtain c' w' where
    4: "connect_selected e n k sel (?c1, w1) = (Inr (), c', w')"
    and 5: "calls w' = calls w1 @ map (Pair k) sel"
    and 6: "topology_log w' = topology_log w1"
    and 7: "?c1 \<subseteq> c'" and 8: "c' \<subseteq> insert k ?c1"
    by auto
  have "c \<subseteq> c'" using 7 by (auto split: if_splits)
  moreover have "c' \<subseteq> insert k c" using 8 by (auto split: if_splits)
  ultimately show ?case using 1 2 3 4 5 6 by simp
qed

lemma count_fst_Pair:
  "count_list (map fst (map (Pair k) xs)) j = (if j = k then length xs else 0)"
  by (induction xs) auto

lemma attach_nodes_calls:
  assumes "attach_nodes e n m [k..<n] draws (c, w) = Some res"
    and "c \<subseteq> {0..<k}" and "c \<noteq> {}" and "0 < m"
  shows "\<exists>c' w' new. res = (Inr (), c', w') \<and> calls w' = calls w @ new
      \<and> topology_log w' = topology_log w
      \<and> new = concat (map (\<lambda>(j, sel). map (Pair j) sel) (zip [k..<n] (stake (n - k) draws)))
      \<and> (\<forall>(j, sel) \<in> set (zip [k..<n] (stake (n - k) draws)).
            1 \<le> length sel \<and> length sel \<le> m \<and> set sel \<subseteq> {0..<j})
      \<and> (\<forall>j. count_list (map fst new) j \<le> m)
      \<and> (\<forall>j<k. count_list (map fst new) j = 0)"
  using assms
proof (induction "n - k" arbitrary: k draws c w)
  case 0
  then have "[k..<n] = []" by simp
  with "0.prems" show ?case by auto
next
  case (Suc d)
  then have kn: "k < n" and d: "d = n - Suc k" by simp_all
  then have upt: "[k..<n] = k # [Suc k..<n]" by (simp add: upt_conv_Cons)
  have nk: "n - k = Suc (n - Suc k)" using kn by simp
  let ?sel = "shd draws"
  have fin: "finite c" using Suc.prems(2) by (rule finite_subset) simp
  have card: "0 < card c" using fin Suc.prems(3) by (simp add: card_gt_0_iff)
  from Suc.prems(1) have ok: "choices_ok c (min m (card c)) ?sel"
    unfolding upt by (auto simp: Let_def split: if_splits)
  then have len: "length ?sel = min m (card c)" and sub: "set ?sel \<subseteq> c"
    by (simp_all add: choices_ok_def)
  have sel_lt: "set ?sel \<subseteq> {0..<k}" using sub Suc.prems(2) by blast
  then have sel_n: "set ?sel \<subseteq> {0..<n}" using kn by auto
  have l1: "1 \<le> length ?sel" using len card Suc.prems(4) by simp
  have l2: "length ?sel \<le> m" using len by simp
  from connect_selected_calls [OF kn sel_n, of e c w] obtain c1 w1 where
    cs: "connect_selected e n k ?sel (c, w) = (Inr (), c1, w1)"
    and cc: "calls w1 = calls w @ map (Pair k) ?sel"
    and cl: "topology_log w1 = topology_log w"
    and c1a: "c \<subseteq> c1" and c1b: "c1 \<subseteq> insert k c"
    by (elim exE conjE)
  from Suc.prems(1) ok cs have rest: "attach_nodes e n m [Suc k..<n] (stl draws) (c1, w1) = Some res"
    unfolding upt by (simp add: Let_def)
  have c1s: "c1 \<subseteq> {0..<Suc k}"
  proof
    fix x assume "x \<in> c1"
    with c1b have "x = k \<or> x \<in> c" by auto
    with Suc.prems(2) show "x \<in> {0..<Suc k}" by auto
  qed
  have c1n: "c1 \<noteq> {}" using c1a Suc.prems(3) by auto
  from Suc.hyps(1) [OF d rest c1s c1n Suc.prems(4)] obtain c' w' new where
    r: "res = (Inr (), c', w')" and rc: "calls w' = calls w1 @ new"
    and rl: "topology_log w' = topology_log w1"
    and rn: "new = concat (map (\<lambda>(j, sel). map (Pair j) sel)
                (zip [Suc k..<n] (stake (n - Suc k) (stl draws))))"
    and rb: "\<forall>(j, sel) \<in> set (zip [Suc k..<n] (stake (n - Suc k) (stl draws))).
            1 \<le> length sel \<and> length sel \<le> m \<and> set sel \<subseteq> {0..<j}"
    and rm: "\<forall>j. count_list (map fst new) j \<le> m"
    and rz: "\<forall>j<Suc k. count_list (map fst new) j = 0"
    by (elim exE conjE)
  let ?new = "map (Pair k) ?sel @ new"
  have zip: "zip [k..<n] (stake (n - k) draws)
      = (k, ?sel) # zip [Suc k..<n] (stake (n - Suc k) (stl draws))"
    by (simp add: upt nk)
  have a: "calls w' = calls w @ ?new" using rc cc by simp
  have b: "topology_log w' = topology_log w" using rl cl by simp
  have c: "?new = concat (map (\<lambda>(j, sel). map (Pair j) sel) (zip [k..<n] (stake (n - k) draws)))"
    unfolding zip using rn by simp
  have d': "\<forall>(j, sel) \<in> set (zip [k..<n] (stake (n - k) draws)).
            1 \<le> length sel \<and> length sel \<le> m \<and> set sel \<subseteq> {0..<j}"
    unfolding zip using rb l1 l2 sel_lt by simp
  have cnt: "count_list (map fst ?new) j = (if j = k then length ?sel else 0) + count_list (map fst new) j" for j
    by (simp only: map_append count_list_append count_fst_Pair)
  have e': "\<forall>j. count_list (map fst ?new) j \<le> m"
  proof
    fix j
    show "count_list (map fst ?new) j \<le> m"
    proof (cases "j = k")
      case True
      with rz have "count_list (map fst new) j = 0" by simp
      with True l2 show ?thesis unfolding cnt by simp
    next
      case False
      with rm show ?thesis unfolding cnt by simp
    qed
  qed
  have f': "\<forall>j<k. count_list (map fst ?new) j = 0"
  proof (intro allI impI)
    fix j assume "j < k"
    with rz have "count_list (map fst new) j = 0" by simp
    with \<open>j < k\<close> show "count_list (map fst ?new) j = 0" unfolding cnt by simp
  qed
  show ?case
    by (rule exI [of _ c'], rule exI [of _ w'], rule exI [of _ ?new])
       (intro conjI r a b c d' e' f')
qed

text \<open>
  \<open>connect_nodes\<close> returns the truth value of \<open>connect_succeeds\<close>; the inner loop adds the
  new node to the set exactly when one of its attempts succeeds; and the outer loop run
  on the new nodes below \<open>k\<close> gives the set and the world that node \<open>k\<close> finds.
\<close>

lemma connect_nodes_result:
  assumes "i < n" and "j < n"
  shows "\<exists>w'. connect_nodes e n i j w = (Inr (connect_succeeds e i j w), w')
           \<and> calls w' = calls w @ [(i, j)]
           \<and> topology_log w' = topology_log w"
  using assms
  by (auto simp: connect_nodes_def connect_succeeds_def resolve_container_ip_def
      get_node_id_def connect_failed_def falsy_def tick_def Let_def
      split: dns_reply.splits id_reply.splits connect_reply.splits option.splits)

lemma attempt_result:
  assumes "i < n" and "j < n"
  shows "attempt e n i j w = (Inr (), snd (connect_nodes e n i j w))"
proof -
  from connect_nodes_result [OF assms, of e w] obtain w' where
    "connect_nodes e n i j w = (Inr (connect_succeeds e i j w), w')"
    by (elim exE conjE)
  then show ?thesis by (simp add: attempt_def)
qed

lemma after_attempts_Nil: "after_attempts e n k [] w = w"
  by (simp add: after_attempts_def)

lemma after_attempts_Cons:
  assumes "k < n" and "t < n"
  shows "after_attempts e n k (t # ts) w = after_attempts e n k ts (snd (connect_nodes e n k t w))"
  by (simp add: after_attempts_def attempt_result [OF assms])

lemma after_attempts_calls:
  assumes "k < n" and "set ts \<subseteq> {0..<n}"
  shows "calls (after_attempts e n k ts w) = calls w @ map (Pair k) ts
     \<and> topology_log (after_attempts e n k ts w) = topology_log w"
  using assms(2)
proof (induction ts arbitrary: w)
  case Nil
  show ?case by (simp add: after_attempts_Nil)
next
  case (Cons t ts)
  then have t: "t < n" by simp
  from connect_nodes_result [OF assms(1) t, of e w] obtain w1 where
    1: "connect_nodes e n k t w = (Inr (connect_succeeds e k t w), w1)"
    and 2: "calls w1 = calls w @ [(k, t)]" and 3: "topology_log w1 = topology_log w"
    by (elim exE conjE)
  from Cons.IH [of w1] Cons.prems 1 2 3 show ?case
    by (simp add: after_attempts_Cons [OF assms(1) t])
qed

lemma connect_selected_result:
  assumes "k < n" and "set sel \<subseteq> {0..<n}"
  shows "connect_selected e n k sel (c, w) =
     (Inr (),
      (if \<exists>p<length sel. connect_succeeds e k (sel ! p) (after_attempts e n k (take p sel) w)
       then insert k c else c),
      after_attempts e n k sel w)"
  using assms(2)
proof (induction sel arbitrary: c w)
  case Nil
  show ?case by (simp add: after_attempts_Nil)
next
  case (Cons t sel)
  then have t: "t < n" and sub: "set sel \<subseteq> {0..<n}" by simp_all
  from connect_nodes_result [OF assms(1) t, of e w] obtain w1 where
    1: "connect_nodes e n k t w = (Inr (connect_succeeds e k t w), w1)"
    by (elim exE conjE)
  let ?b = "connect_succeeds e k t w"
  let ?c1 = "if ?b then insert k c else c"
  let ?rest = "\<exists>p<length sel. connect_succeeds e k (sel ! p) (after_attempts e n k (take p sel) w1)"
  have ex: "(\<exists>p<length (t # sel).
        connect_succeeds e k ((t # sel) ! p) (after_attempts e n k (take p (t # sel)) w))
      \<longleftrightarrow> ?b \<or> ?rest"
    using 1 by (simp add: Ex_less_Suc2 after_attempts_Nil after_attempts_Cons [OF assms(1) t])
  have w: "after_attempts e n k (t # sel) w = after_attempts e n k sel w1"
    using 1 by (simp add: after_attempts_Cons [OF assms(1) t])
  from 1 have "connect_selected e n k (t # sel) (c, w) = connect_selected e n k sel (?c1, w1)"
    by simp
  also have "\<dots> = (Inr (), (if ?rest then insert k ?c1 else ?c1), after_attempts e n k sel w1)"
    by (rule Cons.IH [OF sub])
  also have "(if ?rest then insert k ?c1 else ?c1) = (if ?b \<or> ?rest then insert k c else c)"
    by auto
  finally show ?case unfolding ex w .
qed

lemma attach_nodes_append:
  "attach_nodes e n m (xs @ ys) draws st =
     (case attach_nodes e n m xs draws st of
        None \<Rightarrow> None
      | Some (Inl err, st') \<Rightarrow> Some (Inl err, st')
      | Some (Inr u, st') \<Rightarrow> attach_nodes e n m ys (sdrop (length xs) draws) st')"
proof (induction xs arbitrary: draws st)
  case Nil
  show ?case by (cases st) simp
next
  case (Cons x xs)
  obtain c w where st: "st = (c, w)" by (cases st)
  show ?case
  proof (cases "choices_ok c (min m (card c)) (shd draws)")
    case False
    then show ?thesis by (simp add: st)
  next
    case True
    show ?thesis
    proof (cases "connect_selected e n x (shd draws) (c, w)")
      case (fields r c1 w1)
      with True Cons.IH [of "stl draws" "(c1, w1)"] show ?thesis
        by (cases r) (auto simp: st split: option.splits sum.splits)
    qed
  qed
qed

lemma prefix_feasible:
  assumes "attach_nodes e n m [1..<n] draws st = Some res" and "k \<le> n"
  shows "attach_nodes e n m [1..<k] draws st \<noteq> None"
proof (cases "1 \<le> k")
  case True
  with assms(2) have "[1..<n] = [1..<k] @ [k..<n]"
    by (metis le_Suc_ex upt_add_eq_append One_nat_def)
  with assms(1) show ?thesis
    by (auto simp: attach_nodes_append split: option.splits)
next
  case False
  then have e: "[1..<k] = []" by simp
  show ?thesis unfolding e by (cases st) simp
qed

lemma node_step:
  assumes pre: "attach_nodes e n m [1..<k] draws ({0}, w) = Some (Inr (), C, W)"
    and k: "1 \<le> k" "k < n" and C: "C \<subseteq> {0..<k}"
    and next_ok: "attach_nodes e n m [1..<Suc k] draws ({0}, w) \<noteq> None"
  shows "length (draws !! (k - 1)) = min m (card C) \<and> set (draws !! (k - 1)) \<subseteq> C
     \<and> attach_nodes e n m [1..<Suc k] draws ({0}, w) =
         Some (Inr (),
           (if \<exists>p<length (draws !! (k - 1)).
                 connect_succeeds e k (draws !! (k - 1) ! p)
                   (after_attempts e n k (take p (draws !! (k - 1))) W)
            then insert k C else C),
           after_attempts e n k (draws !! (k - 1)) W)"
proof -
  let ?sel = "draws !! (k - 1)"
  from k have upt: "[1..<Suc k] = [1..<k] @ [k]" by simp
  have sh: "shd (sdrop (k - 1) draws) = ?sel" by (simp add: sdrop_simps)
  have eq: "attach_nodes e n m [1..<Suc k] draws ({0}, w)
      = attach_nodes e n m [k] (sdrop (k - 1) draws) (C, W)"
    unfolding upt attach_nodes_append pre by simp
  with next_ok have ok: "choices_ok C (min m (card C)) ?sel"
    by (auto simp: sh Let_def split: if_splits)
  then have len: "length ?sel = min m (card C)" and sub: "set ?sel \<subseteq> C"
    by (simp_all add: choices_ok_def)
  from sub C k have "set ?sel \<subseteq> {0..<n}" by fastforce
  from connect_selected_result [OF k(2) this, of e C W] ok
  have "attach_nodes e n m [k] (sdrop (k - 1) draws) (C, W) =
         Some (Inr (),
           (if \<exists>p<length ?sel.
                 connect_succeeds e k (?sel ! p) (after_attempts e n k (take p ?sel) W)
            then insert k C else C),
           after_attempts e n k ?sel W)"
    by (simp add: sh Let_def)
  with eq len sub show ?thesis by simp
qed

lemma prefix_state:
  assumes full: "attach_nodes e n m [1..<n] draws ({0}, w) = Some res"
    and k: "1 \<le> k" "k \<le> n"
  shows "\<exists>C W. attach_nodes e n m [1..<k] draws ({0}, w) = Some (Inr (), C, W)
      \<and> 0 \<in> C \<and> C \<subseteq> {0..<k}
      \<and> calls W = calls w @ concat (map (\<lambda>j. map (Pair j) (draws !! (j - 1))) [1..<k])
      \<and> topology_log W = topology_log w"
  using k
proof (induction k rule: dec_induct)
  case base
  show ?case by simp
next
  case (step k)
  then have kn: "k < n" and k1: "1 \<le> k" by simp_all
  from step.IH kn obtain C W where
    pre: "attach_nodes e n m [1..<k] draws ({0}, w) = Some (Inr (), C, W)"
    and z: "0 \<in> C" and C: "C \<subseteq> {0..<k}"
    and cl: "calls W = calls w @ concat (map (\<lambda>j. map (Pair j) (draws !! (j - 1))) [1..<k])"
    and tl: "topology_log W = topology_log w"
    by auto
  let ?sel = "draws !! (k - 1)"
  let ?C' = "if \<exists>p<length ?sel.
                 connect_succeeds e k (?sel ! p) (after_attempts e n k (take p ?sel) W)
            then insert k C else C"
  let ?W' = "after_attempts e n k ?sel W"
  from prefix_feasible [OF full, of "Suc k"] kn
  have ok: "attach_nodes e n m [1..<Suc k] draws ({0}, w) \<noteq> None" by simp
  from node_step [OF pre k1 kn C ok] have
    sub: "set ?sel \<subseteq> C"
    and nx: "attach_nodes e n m [1..<Suc k] draws ({0}, w) = Some (Inr (), ?C', ?W')"
    by simp_all
  from sub C kn have "set ?sel \<subseteq> {0..<n}" by fastforce
  from after_attempts_calls [OF kn this, of e W]
  have c2: "calls ?W' = calls W @ map (Pair k) ?sel" and t2: "topology_log ?W' = topology_log W"
    by simp_all
  have 1: "0 \<in> ?C'" using z by simp
  have 2: "?C' \<subseteq> {0..<Suc k}" using C by (auto split: if_splits)
  have 3: "calls ?W' = calls w @ concat (map (\<lambda>j. map (Pair j) (draws !! (j - 1))) [1..<Suc k])"
    using c2 cl k1 by simp
  have 4: "topology_log ?W' = topology_log w" using t2 tl by simp
  from nx 1 2 3 4 show ?case by (intro exI [of _ ?C'] exI [of _ ?W'] conjI)
qed

lemma refused_connect:
  assumes "\<forall>t i ip pid. post_swarm_connect e t i ip pid \<noteq> ConnStatus 200"
  shows "\<not> connect_succeeds e i j w"
  using assms
  by (auto simp: connect_succeeds_def split: dns_reply.splits id_reply.splits option.splits)

lemma accepted_connect:
  assumes "\<forall>t i. \<exists>ip. ip \<noteq> [] \<and> gethostbyname e t i = Resolved ip"
    and "\<forall>t i. \<exists>pid. pid \<noteq> [] \<and> post_id e t i = IdValue (Some pid)"
    and "\<forall>t i ip pid. post_swarm_connect e t i ip pid = ConnStatus 200"
  shows "connect_succeeds e i j w"
proof -
  from assms(1) obtain ip where 1: "ip \<noteq> []" "gethostbyname e (clock w) j = Resolved ip"
    by blast
  from assms(2) obtain pid where
    2: "pid \<noteq> []" "post_id e (Suc (clock w)) j = IdValue (Some pid)"
    by blast
  from 1 2 assms(3) show ?thesis by (simp add: connect_succeeds_def)
qed

lemma refused_state:
  assumes full: "attach_nodes e n m [1..<n] draws ({0}, w) = Some res"
    and refuse: "\<forall>t i ip pid. post_swarm_connect e t i ip pid \<noteq> ConnStatus 200"
    and k: "1 \<le> k" "k \<le> n"
  shows "\<exists>W. attach_nodes e n m [1..<k] draws ({0}, w) = Some (Inr (), {0}, W)"
  using k
proof (induction k rule: dec_induct)
  case base
  show ?case by simp
next
  case (step k)
  then have kn: "k < n" and k1: "1 \<le> k" by simp_all
  from step.IH kn obtain W where
    pre: "attach_nodes e n m [1..<k] draws ({0}, w) = Some (Inr (), {0}, W)"
    by auto
  from prefix_feasible [OF full, of "Suc k"] kn
  have ok: "attach_nodes e n m [1..<Suc k] draws ({0}, w) \<noteq> None" by simp
  have C: "{0::nat} \<subseteq> {0..<k}" using k1 by auto
  from node_step [OF pre k1 kn C ok] refused_connect [OF refuse]
  show ?case by simp
qed

lemma refused_draws:
  assumes full: "attach_nodes e n m [1..<n] draws ({0}, w) = Some res" and m: "0 < m"
    and refuse: "\<forall>t i ip pid. post_swarm_connect e t i ip pid \<noteq> ConnStatus 200"
    and k: "1 \<le> k" "k < n"
  shows "draws !! (k - 1) = [0]"
proof -
  from refused_state [OF full refuse k(1)] k(2) obtain W where
    pre: "attach_nodes e n m [1..<k] draws ({0}, w) = Some (Inr (), {0}, W)"
    by auto
  from prefix_feasible [OF full, of "Suc k"] k(2)
  have ok: "attach_nodes e n m [1..<Suc k] draws ({0}, w) \<noteq> None" by simp
  have C: "{0::nat} \<subseteq> {0..<k}" using k(1) by auto
  from node_step [OF pre k C ok] m
  have "length (draws !! (k - 1)) = 1" and "set (draws !! (k - 1)) \<subseteq> {0}"
    by simp_all
  then show ?thesis by (cases "draws !! (k - 1)") auto
qed

lemma accepted_state:
  assumes full: "attach_nodes e n m [1..<n] draws ({0}, w) = Some res" and m: "0 < m"
    and accept: "\<forall>t i. \<exists>ip. ip \<noteq> [] \<and> gethostbyname e t i = Resolved ip"
      "\<forall>t i. \<exists>pid. pid \<noteq> [] \<and> post_id e t i = IdValue (Some pid)"
      "\<forall>t i ip pid. post_swarm_connect e t i ip pid = ConnStatus 200"
    and k: "1 \<le> k" "k \<le> n"
  shows "\<exists>W. attach_nodes e n m [1..<k] draws ({0}, w) = Some (Inr (), {0..<k}, W)"
  using k
proof (induction k rule: dec_induct)
  case base
  have "{0..<1::nat} = {0}" by auto
  then show ?case by simp
next
  case (step k)
  then have kn: "k < n" and k1: "1 \<le> k" by simp_all
  from step.IH kn obtain W where
    pre: "attach_nodes e n m [1..<k] draws ({0}, w) = Some (Inr (), {0..<k}, W)"
    by auto
  from prefix_feasible [OF full, of "Suc k"] kn
  have ok: "attach_nodes e n m [1..<Suc k] draws ({0}, w) \<noteq> None" by simp
  let ?sel = "draws !! (k - 1)"
  from node_step [OF pre k1 kn subset_refl ok] have
    len: "length ?sel = min m (card {0..<k})"
    and nx: "attach_nodes e n m [1..<Suc k] draws ({0}, w) =
         Some (Inr (),
           (if \<exists>p<length ?sel.
                 connect_succeeds e k (?sel ! p) (after_attempts e n k (take p ?sel) W)
            then insert k {0..<k} else {0..<k}),
           after_attempts e n k ?sel W)"
    by simp_all
  from len m k1 have "0 < length ?sel" by simp
  then have "\<exists>p<length ?sel.
                 connect_succeeds e k (?sel ! p) (after_attempts e n k (take p ?sel) W)"
    using accepted_connect [OF accept] by blast
  moreover have "insert k {0..<k} = {0..<Suc k}" by auto
  ultimately show ?case using nx by simp
qed

lemma accepted_draws:
  assumes full: "attach_nodes e n m [1..<n] draws ({0}, w) = Some res" and m: "0 < m"
    and accept: "\<forall>t i. \<exists>ip. ip \<noteq> [] \<and> gethostbyname e t i = Resolved ip"
      "\<forall>t i. \<exists>pid. pid \<noteq> [] \<and> post_id e t i = IdValue (Some pid)"
      "\<forall>t i ip pid. post_swarm_connect e t i ip pid = ConnStatus 200"
    and k: "1 \<le> k" "k < n"
  shows "length (draws !! (k - 1)) = min m k \<and> set (draws !! (k - 1)) \<subseteq> {0..<k}"
proof -
  from accepted_state [OF full m accept k(1)] k(2) obtain W where
    pre: "attach_nodes e n m [1..<k] draws ({0}, w) = Some (Inr (), {0..<k}, W)"
    by auto
  from prefix_feasible [OF full, of "Suc k"] k(2)
  have ok: "attach_nodes e n m [1..<Suc k] draws ({0}, w) \<noteq> None" by simp
  from node_step [OF pre k subset_refl ok] show ?thesis by simp
qed

lemma node_round:
  assumes full: "attach_nodes e n m [1..<n] draws ({0}, w) = Some res"
    and k: "1 \<le> k" "k < n"
  shows "\<exists>C W. attach_nodes e n m [1..<k] draws ({0}, w) = Some (Inr (), C, W)
      \<and> 0 \<in> C \<and> C \<subseteq> {0..<k}
      \<and> length (draws !! (k - 1)) = min m (card C)
      \<and> set (draws !! (k - 1)) \<subseteq> C
      \<and> attach_nodes e n m [1..<Suc k] draws ({0}, w) =
          Some (Inr (),
            (if \<exists>p<length (draws !! (k - 1)).
                  connect_succeeds e k (draws !! (k - 1) ! p)
                    (after_attempts e n k (take p (draws !! (k - 1))) W)
             then insert k C else C),
            after_attempts e n k (draws !! (k - 1)) W)"
proof -
  from prefix_state [OF full k(1)] k(2) obtain C W where
    pre: "attach_nodes e n m [1..<k] draws ({0}, w) = Some (Inr (), C, W)"
    and z: "0 \<in> C" and C: "C \<subseteq> {0..<k}"
    by auto
  from prefix_feasible [OF full, of "Suc k"] k(2)
  have ok: "attach_nodes e n m [1..<Suc k] draws ({0}, w) \<noteq> None" by simp
  from node_step [OF pre k C ok] have
    1: "length (draws !! (k - 1)) = min m (card C)"
    and 2: "set (draws !! (k - 1)) \<subseteq> C"
    and 3: "attach_nodes e n m [1..<Suc k] draws ({0}, w) =
          Some (Inr (),
            (if \<exists>p<length (draws !! (k - 1)).
                  connect_succeeds e k (draws !! (k - 1) ! p)
                    (after_attempts e n k (take p (draws !! (k - 1))) W)
             then insert k C else C),
            after_attempts e n k (draws !! (k - 1)) W)"
    by simp_all
  from pre z C 1 2 3 show ?thesis by (intro exI [of _ C] exI [of _ W] conjI)
qed

lemma count_const:
  "count_list (map (\<lambda>a. k) xs) j = (if j = k then length xs else 0)"
  by (induction xs) auto

lemma count_rounds:
  "count_list (map fst (concat (map (\<lambda>k. map (Pair k) (f k)) [a..<b]))) j
     = (if a \<le> j \<and> j < b then length (f j) else 0)"
  by (induction b) (auto simp: count_const comp_def)

subsection \<open>The verifier\<close>

lemma get_node_id_in_range:
  assumes "j < n"
  shows "get_node_id e n j w = (Inr (node_id_at e (clock w) j), tick w)"
  using assms by (simp add: get_node_id_def node_id_at_def split: id_reply.splits)

lemma check_node_in_range:
  assumes "j < n"
  shows "check_node e n i pid j (matrix, w)
     = (Inr (), (if node_id_at e (clock w) j = pid then set_entry matrix i j else matrix), tick w)"
  using assms by (simp add: check_node_def get_node_id_in_range)

lemma mark_range:
  assumes "b \<le> n" and "i < length matrix"
  shows "\<exists>matrix' w'. for_each (check_node e n i pid) [a..<b] (matrix, w) = (Inr (), matrix', w')
     \<and> clock w' = clock w + (b - a) \<and> calls w' = calls w \<and> topology_log w' = topology_log w
     \<and> length matrix' = length matrix
     \<and> (\<forall>r<length matrix. length (matrix' ! r) = length (matrix ! r))
     \<and> (\<forall>r<length matrix. r \<noteq> i \<longrightarrow> matrix' ! r = matrix ! r)
     \<and> (\<forall>j<length (matrix ! i). matrix' ! i ! j =
            (if a \<le> j \<and> j < b \<and> node_id_at e (clock w + (j - a)) j = pid then 1
             else matrix ! i ! j))"
  using assms
proof (induction "b - a" arbitrary: a matrix w)
  case 0
  then have "[a..<b] = []" by simp
  then show ?case by auto
next
  case (Suc d)
  then have ab: "a < b" and d: "d = b - Suc a" by simp_all
  then have upt: "[a..<b] = a # [Suc a..<b]" by (simp add: upt_conv_Cons)
  have an: "a < n" using ab Suc.prems(1) by simp
  let ?m1 = "if node_id_at e (clock w) a = pid then set_entry matrix i a else matrix"
  have len1: "length ?m1 = length matrix" by (simp add: set_entry_def)
  have i1: "i < length ?m1" using Suc.prems(2) len1 by simp
  from Suc.hyps(1) [OF d Suc.prems(1) i1, of "tick w"] obtain matrix' w' where
    f: "for_each (check_node e n i pid) [Suc a..<b] (?m1, tick w) = (Inr (), matrix', w')"
    and c: "clock w' = clock (tick w) + (b - Suc a)"
    and cl: "calls w' = calls (tick w)" and tl: "topology_log w' = topology_log (tick w)"
    and l: "length matrix' = length ?m1"
    and rl: "\<forall>r<length ?m1. length (matrix' ! r) = length (?m1 ! r)"
    and ro: "\<forall>r<length ?m1. r \<noteq> i \<longrightarrow> matrix' ! r = ?m1 ! r"
    and ri: "\<forall>j<length (?m1 ! i). matrix' ! i ! j =
            (if Suc a \<le> j \<and> j < b \<and> node_id_at e (clock (tick w) + (j - Suc a)) j = pid then 1
             else ?m1 ! i ! j)"
    by (elim exE conjE)
  have rows1: "\<forall>r<length matrix. length (?m1 ! r) = length (matrix ! r)"
    using Suc.prems(2) by (auto simp: set_entry_def nth_list_update)
  have other1: "\<forall>r<length matrix. r \<noteq> i \<longrightarrow> ?m1 ! r = matrix ! r"
    by (auto simp: set_entry_def)
  have row1: "\<forall>j<length (matrix ! i). ?m1 ! i ! j =
      (if j = a \<and> node_id_at e (clock w) a = pid then 1 else matrix ! i ! j)"
    using Suc.prems(2) by (auto simp: set_entry_def nth_list_update)
  have A: "for_each (check_node e n i pid) [a..<b] (matrix, w) = (Inr (), matrix', w')"
    unfolding upt using f by (simp add: check_node_in_range [OF an])
  have B: "clock w' = clock w + (b - a)" using c ab by (simp add: tick_def)
  have C: "calls w' = calls w" using cl by (simp add: tick_def)
  have D: "topology_log w' = topology_log w" using tl by (simp add: tick_def)
  have E: "length matrix' = length matrix" using l len1 by simp
  have F: "\<forall>r<length matrix. length (matrix' ! r) = length (matrix ! r)"
    using rl rows1 len1 by simp
  have G: "\<forall>r<length matrix. r \<noteq> i \<longrightarrow> matrix' ! r = matrix ! r"
    using ro other1 len1 by simp
  have H: "\<forall>j<length (matrix ! i). matrix' ! i ! j =
            (if a \<le> j \<and> j < b \<and> node_id_at e (clock w + (j - a)) j = pid then 1
             else matrix ! i ! j)"
  proof (intro allI impI)
    fix j assume j: "j < length (matrix ! i)"
    then have j1: "j < length (?m1 ! i)" using rows1 Suc.prems(2) by simp
    have t: "clock (tick w) + (j - Suc a) = clock w + (j - a)" if "Suc a \<le> j"
      using that by (simp add: tick_def)
    show "matrix' ! i ! j =
            (if a \<le> j \<and> j < b \<and> node_id_at e (clock w + (j - a)) j = pid then 1
             else matrix ! i ! j)"
    proof (cases "j = a")
      case True
      with ri j1 row1 j ab show ?thesis by simp
    next
      case False
      show ?thesis
      proof (cases "Suc a \<le> j")
        case True
        with ri j1 row1 j False t show ?thesis by simp
      next
        case False
        with \<open>j \<noteq> a\<close> have "\<not> a \<le> j" by simp
        with ri j1 row1 j False \<open>j \<noteq> a\<close> show ?thesis by simp
      qed
    qed
  qed
  show ?case
    by (rule exI [of _ matrix'], rule exI [of _ w']) (intro conjI A B C D E F G H)
qed

lemma mark_peer_row:
  assumes "i < n" and "square n matrix"
  shows "\<exists>matrix' w'. mark_peer e n i peer (matrix, w) = (Inr (), matrix', w')
     \<and> clock w' = clock w + n \<and> calls w' = calls w \<and> topology_log w' = topology_log w
     \<and> square n matrix'
     \<and> (\<forall>r<n. r \<noteq> i \<longrightarrow> matrix' ! r = matrix ! r)
     \<and> (\<forall>j<n. matrix' ! i ! j =
            (if node_id_at e (clock w + j) j = Peer peer then 1 else matrix ! i ! j))"
proof -
  from assms have len: "length matrix = n" and rows: "\<forall>r<n. length (matrix ! r) = n"
    by (simp_all add: square_def)
  have il: "i < length matrix" using assms(1) len by simp
  from mark_range [OF le_refl [of n] il, where e = e and pid = "Peer peer" and a = 0 and w = w] obtain matrix' w' where
    f: "for_each (check_node e n i (Peer peer)) [0..<n] (matrix, w) = (Inr (), matrix', w')"
    and c: "clock w' = clock w + (n - 0)"
    and cl: "calls w' = calls w" and tl: "topology_log w' = topology_log w"
    and l: "length matrix' = length matrix"
    and rl: "\<forall>r<length matrix. length (matrix' ! r) = length (matrix ! r)"
    and ro: "\<forall>r<length matrix. r \<noteq> i \<longrightarrow> matrix' ! r = matrix ! r"
    and ri: "\<forall>j<length (matrix ! i). matrix' ! i ! j =
            (if 0 \<le> j \<and> j < n \<and> node_id_at e (clock w + (j - 0)) j = Peer peer then 1
             else matrix ! i ! j)"
    by (elim exE conjE)
  have A: "mark_peer e n i peer (matrix, w) = (Inr (), matrix', w')"
    using f by (simp add: mark_peer_def)
  have B: "clock w' = clock w + n" using c by simp
  have S: "square n matrix'" using l rl len rows by (simp add: square_def)
  have O: "\<forall>r<n. r \<noteq> i \<longrightarrow> matrix' ! r = matrix ! r" using ro len by simp
  have R: "\<forall>j<n. matrix' ! i ! j =
            (if node_id_at e (clock w + j) j = Peer peer then 1 else matrix ! i ! j)"
    using ri rows assms(1) by simp
  show ?thesis
    by (rule exI [of _ matrix'], rule exI [of _ w']) (intro conjI A B cl tl S O R)
qed

lemma mark_peers:
  assumes "i < n" and "square n matrix"
  shows "\<exists>matrix' w'. for_each (mark_peer e n i) ps (matrix, w) = (Inr (), matrix', w')
     \<and> clock w' = clock w + length ps * n \<and> calls w' = calls w
     \<and> topology_log w' = topology_log w
     \<and> square n matrix'
     \<and> (\<forall>r<n. r \<noteq> i \<longrightarrow> matrix' ! r = matrix ! r)
     \<and> (\<forall>j<n. matrix' ! i ! j =
            (if \<exists>k<length ps. node_id_at e (clock w + k * n + j) j = Peer (ps ! k) then 1
             else matrix ! i ! j))"
  using assms(2)
proof (induction ps arbitrary: matrix w)
  case Nil
  then show ?case by simp
next
  case (Cons p ps)
  from mark_peer_row [OF assms(1) Cons.prems, of e p w] obtain m1 w1 where
    f1: "mark_peer e n i p (matrix, w) = (Inr (), m1, w1)"
    and c1: "clock w1 = clock w + n" and cl1: "calls w1 = calls w"
    and tl1: "topology_log w1 = topology_log w" and s1: "square n m1"
    and o1: "\<forall>r<n. r \<noteq> i \<longrightarrow> m1 ! r = matrix ! r"
    and r1: "\<forall>j<n. m1 ! i ! j =
            (if node_id_at e (clock w + j) j = Peer p then 1 else matrix ! i ! j)"
    by (elim exE conjE)
  from Cons.IH [OF s1, of w1] obtain matrix' w' where
    f: "for_each (mark_peer e n i) ps (m1, w1) = (Inr (), matrix', w')"
    and c: "clock w' = clock w1 + length ps * n" and cl: "calls w' = calls w1"
    and tl: "topology_log w' = topology_log w1" and s: "square n matrix'"
    and o: "\<forall>r<n. r \<noteq> i \<longrightarrow> matrix' ! r = m1 ! r"
    and r: "\<forall>j<n. matrix' ! i ! j =
            (if \<exists>k<length ps. node_id_at e (clock w1 + k * n + j) j = Peer (ps ! k) then 1
             else m1 ! i ! j)"
    by (elim exE conjE)
  have A: "for_each (mark_peer e n i) (p # ps) (matrix, w) = (Inr (), matrix', w')"
    using f1 f by simp
  have B: "clock w' = clock w + length (p # ps) * n" using c c1 by simp
  have C: "calls w' = calls w" using cl cl1 by simp
  have D: "topology_log w' = topology_log w" using tl tl1 by simp
  have O: "\<forall>r<n. r \<noteq> i \<longrightarrow> matrix' ! r = matrix ! r" using o o1 by simp
  have R: "\<forall>j<n. matrix' ! i ! j =
            (if \<exists>k<length (p # ps). node_id_at e (clock w + k * n + j) j = Peer ((p # ps) ! k)
             then 1 else matrix ! i ! j)"
  proof (intro allI impI)
    fix j assume j: "j < n"
    have shift: "clock w1 + k * n + j = clock w + Suc k * n + j" for k
      using c1 by simp
    have ex: "(\<exists>k<length (p # ps). node_id_at e (clock w + k * n + j) j = Peer ((p # ps) ! k))
        \<longleftrightarrow> node_id_at e (clock w + j) j = Peer p
            \<or> (\<exists>k<length ps. node_id_at e (clock w1 + k * n + j) j = Peer (ps ! k))"
      by (simp add: Ex_less_Suc2 shift)
    from r j have rj: "matrix' ! i ! j =
            (if \<exists>k<length ps. node_id_at e (clock w1 + k * n + j) j = Peer (ps ! k) then 1
             else m1 ! i ! j)" by blast
    from r1 j have r1j: "m1 ! i ! j =
            (if node_id_at e (clock w + j) j = Peer p then 1 else matrix ! i ! j)" by blast
    show "matrix' ! i ! j =
            (if \<exists>k<length (p # ps). node_id_at e (clock w + k * n + j) j = Peer ((p # ps) ! k)
             then 1 else matrix ! i ! j)"
      unfolding ex rj r1j by auto
  qed
  show ?case
    by (rule exI [of _ matrix'], rule exI [of _ w']) (intro conjI A B C D s O R)
qed

lemma read_node_row:
  assumes "i < n" and "square n matrix"
  shows "\<exists>matrix' w'. read_node e n i (matrix, w) = (matrix', w')
     \<and> calls w' = calls w \<and> topology_log w' = topology_log w
     \<and> square n matrix'
     \<and> (\<forall>r<n. r \<noteq> i \<longrightarrow> matrix' ! r = matrix ! r)
     \<and> (\<forall>j<n. matrix' ! i ! j =
            (if \<exists>peers k. post_swarm_peers e (clock w) i = PeersReply 200 peers
                  \<and> k < length (filter is_kad peers)
                  \<and> node_id_at e (clock w + 1 + k * n + j) j = Peer (filter is_kad peers ! k)
             then 1 else matrix ! i ! j))"
proof (cases "\<exists>peers. post_swarm_peers e (clock w) i = PeersReply 200 peers")
  case False
  then have "read_node e n i (matrix, w) = (matrix, tick w)"
    by (auto simp: read_node_def split: peers_reply.splits)
  with False assms(2) show ?thesis by (simp add: tick_def)
next
  case True
  then obtain peers where p: "post_swarm_peers e (clock w) i = PeersReply 200 peers" ..
  let ?ps = "filter is_kad peers"
  from mark_peers [OF assms, of e ?ps "tick w"] obtain matrix' w' where
    f: "for_each (mark_peer e n i) ?ps (matrix, tick w) = (Inr (), matrix', w')"
    and cl: "calls w' = calls (tick w)" and tl: "topology_log w' = topology_log (tick w)"
    and s: "square n matrix'"
    and o: "\<forall>r<n. r \<noteq> i \<longrightarrow> matrix' ! r = matrix ! r"
    and r: "\<forall>j<n. matrix' ! i ! j =
            (if \<exists>k<length ?ps. node_id_at e (clock (tick w) + k * n + j) j = Peer (?ps ! k) then 1
             else matrix ! i ! j)"
    by (elim exE conjE)
  have A: "read_node e n i (matrix, w) = (matrix', w')"
  proof (cases "peers = []")
    case True
    with f have "matrix' = matrix" and "w' = tick w" by simp_all
    with True p show ?thesis by (simp add: read_node_def)
  next
    case False
    with p f show ?thesis by (simp add: read_node_def)
  qed
  have C: "calls w' = calls w" using cl by (simp add: tick_def)
  have D: "topology_log w' = topology_log w" using tl by (simp add: tick_def)
  have R: "\<forall>j<n. matrix' ! i ! j =
            (if \<exists>peers k. post_swarm_peers e (clock w) i = PeersReply 200 peers
                  \<and> k < length (filter is_kad peers)
                  \<and> node_id_at e (clock w + 1 + k * n + j) j = Peer (filter is_kad peers ! k)
             then 1 else matrix ! i ! j)"
  proof (intro allI impI)
    fix j assume "j < n"
    with r have rj: "matrix' ! i ! j =
            (if \<exists>k<length ?ps. node_id_at e (clock (tick w) + k * n + j) j = Peer (?ps ! k) then 1
             else matrix ! i ! j)" by blast
    have "(\<exists>peers k. post_swarm_peers e (clock w) i = PeersReply 200 peers
                  \<and> k < length (filter is_kad peers)
                  \<and> node_id_at e (clock w + 1 + k * n + j) j = Peer (filter is_kad peers ! k))
       \<longleftrightarrow> (\<exists>k<length ?ps. node_id_at e (clock (tick w) + k * n + j) j = Peer (?ps ! k))"
      using p by (auto simp: tick_def)
    with rj show "matrix' ! i ! j =
            (if \<exists>peers k. post_swarm_peers e (clock w) i = PeersReply 200 peers
                  \<and> k < length (filter is_kad peers)
                  \<and> node_id_at e (clock w + 1 + k * n + j) j = Peer (filter is_kad peers ! k)
             then 1 else matrix ! i ! j)"
      by simp
  qed
  show ?thesis
    by (rule exI [of _ matrix'], rule exI [of _ w']) (intro conjI A C D s o R)
qed

lemma read_prefix:
  assumes "m \<le> n"
  shows "\<exists>M w'. fold (read_node e n) [0..<m] (replicate n (replicate n 0), w) = (M, w')
     \<and> calls w' = calls w \<and> topology_log w' = topology_log w
     \<and> square n M
     \<and> (\<forall>i<n. \<forall>j<n. M ! i ! j =
            (if i < m \<and> (\<exists>peers k. post_swarm_peers e (asked_at e n w i) i = PeersReply 200 peers
                  \<and> k < length (filter is_kad peers)
                  \<and> node_id_at e (asked_at e n w i + 1 + k * n + j) j
                      = Peer (filter is_kad peers ! k))
             then 1 else 0))"
  using assms
proof (induction m)
  case 0
  show ?case by (simp add: square_def)
next
  case (Suc m)
  then have mn: "m < n" by simp
  from Suc.IH mn obtain M1 w1 where
    f1: "fold (read_node e n) [0..<m] (replicate n (replicate n 0), w) = (M1, w1)"
    and cl1: "calls w1 = calls w" and tl1: "topology_log w1 = topology_log w"
    and s1: "square n M1"
    and r1: "\<forall>i<n. \<forall>j<n. M1 ! i ! j =
            (if i < m \<and> (\<exists>peers k. post_swarm_peers e (asked_at e n w i) i = PeersReply 200 peers
                  \<and> k < length (filter is_kad peers)
                  \<and> node_id_at e (asked_at e n w i + 1 + k * n + j) j
                      = Peer (filter is_kad peers ! k))
             then 1 else 0)"
    by auto
  have t: "clock w1 = asked_at e n w m" by (simp add: asked_at_def f1)
  from read_node_row [OF mn s1, of e w1] obtain M w' where
    f: "read_node e n m (M1, w1) = (M, w')"
    and cl: "calls w' = calls w1" and tl: "topology_log w' = topology_log w1"
    and s: "square n M"
    and o: "\<forall>r<n. r \<noteq> m \<longrightarrow> M ! r = M1 ! r"
    and r: "\<forall>j<n. M ! m ! j =
            (if \<exists>peers k. post_swarm_peers e (clock w1) m = PeersReply 200 peers
                  \<and> k < length (filter is_kad peers)
                  \<and> node_id_at e (clock w1 + 1 + k * n + j) j = Peer (filter is_kad peers ! k)
             then 1 else M1 ! m ! j)"
    by (elim exE conjE)
  have A: "fold (read_node e n) [0..<Suc m] (replicate n (replicate n 0), w) = (M, w')"
    using f1 f by simp
  have C: "calls w' = calls w" using cl cl1 by simp
  have D: "topology_log w' = topology_log w" using tl tl1 by simp
  have R: "\<forall>i<n. \<forall>j<n. M ! i ! j =
            (if i < Suc m \<and> (\<exists>peers k. post_swarm_peers e (asked_at e n w i) i = PeersReply 200 peers
                  \<and> k < length (filter is_kad peers)
                  \<and> node_id_at e (asked_at e n w i + 1 + k * n + j) j
                      = Peer (filter is_kad peers ! k))
             then 1 else 0)"
  proof (intro allI impI)
    fix i j assume i: "i < n" and j: "j < n"
    from r1 i j have r1ij: "M1 ! i ! j =
            (if i < m \<and> (\<exists>peers k. post_swarm_peers e (asked_at e n w i) i = PeersReply 200 peers
                  \<and> k < length (filter is_kad peers)
                  \<and> node_id_at e (asked_at e n w i + 1 + k * n + j) j
                      = Peer (filter is_kad peers ! k))
             then 1 else 0)" by blast
    show "M ! i ! j =
            (if i < Suc m \<and> (\<exists>peers k. post_swarm_peers e (asked_at e n w i) i = PeersReply 200 peers
                  \<and> k < length (filter is_kad peers)
                  \<and> node_id_at e (asked_at e n w i + 1 + k * n + j) j
                      = Peer (filter is_kad peers ! k))
             then 1 else 0)"
    proof (cases "i = m")
      case True
      from r j have "M ! m ! j =
            (if \<exists>peers k. post_swarm_peers e (clock w1) m = PeersReply 200 peers
                  \<and> k < length (filter is_kad peers)
                  \<and> node_id_at e (clock w1 + 1 + k * n + j) j = Peer (filter is_kad peers ! k)
             then 1 else M1 ! m ! j)" by blast
      moreover have "M1 ! m ! j = 0" using r1ij True by simp
      ultimately show ?thesis unfolding t using True by simp
    next
      case False
      with o i have "M ! i = M1 ! i" by simp
      with r1ij False show ?thesis by (simp add: less_Suc_eq)
    qed
  qed
  show ?case
    by (rule exI [of _ M], rule exI [of _ w']) (intro conjI A C D s R)
qed

section \<open>The claims about the constructors\<close>

text \<open>
  C4 (ring), as the code has it. For every node count \<open>n\<close> and whatever the cluster
  answers, \<open>create_ring_topology\<close> returns normally after exactly \<open>n\<close> calls of
  \<open>connect_nodes\<close>, the \<open>i\<close>-th being \<open>connect_nodes(i, (i + 1) mod n)\<close>. From two nodes
  on, no call connects a node to itself. (With a single node the one call is
  \<open>connect_nodes(0, 0)\<close>: see \<open>ring_single_node_self_loop\<close>.)
\<close>

theorem ring_attempts:
  "\<exists>w' new. create_ring_topology e n w = (Inr (), w') \<and> calls w' = calls w @ new
     \<and> length new = n
     \<and> (\<forall>i<n. new ! i = (i, (i + 1) mod n))
     \<and> (2 \<le> n \<longrightarrow> (\<forall>i<n. fst (new ! i) \<noteq> snd (new ! i)))"
proof -
  from ring_calls [of e n w] obtain w' where
    r: "create_ring_topology e n w = (Inr (), w')"
    and c: "calls w' = calls w @ map (\<lambda>i. (i, (i + 1) mod n)) [0..<n]"
    by blast
  let ?new = "map (\<lambda>i. (i, (i + 1) mod n)) [0..<n]"
  have "length ?new = n" by simp
  moreover have "\<forall>i<n. ?new ! i = (i, (i + 1) mod n)" by simp
  moreover have "2 \<le> n \<longrightarrow> (\<forall>i<n. fst (?new ! i) \<noteq> snd (?new ! i))"
  proof (intro impI allI)
    fix i assume "2 \<le> n" and "i < n"
    then show "fst (?new ! i) \<noteq> snd (?new ! i)"
      using ring_no_self_loop [of n i] by auto
  qed
  ultimately show ?thesis using r c by blast
qed

theorem ring_attempts_witness:
  "\<exists>w'. create_ring_topology healthy 4 fresh = (Inr (), w') \<and> length (calls w') = 4
     \<and> calls w' ! 0 = (0, 1) \<and> calls w' ! 3 = (3, 0)
     \<and> fst (calls w' ! 3) \<noteq> snd (calls w' ! 3)"
  using ring_attempts [of healthy 4 fresh] by (auto simp: fresh_def)

text \<open>
  C4 as stated fails for \<open>n = 1\<close>: the ring over a single node makes the one call
  \<open>connect_nodes(0, 0)\<close>, a self-loop.
\<close>

theorem ring_single_node_self_loop:
  "calls (snd (create_ring_topology healthy 1 fresh)) = [(0, 0)]"
  by (simp add: create_ring_topology_def attempt_def connect_nodes_def
      resolve_container_ip_def get_node_id_def healthy_def fresh_def tick_def falsy_def)

text \<open>
  C7 (full mesh). For every node count \<open>n\<close> and whatever the cluster answers,
  \<open>create_fully_connected_topology\<close> returns normally after exactly \<open>n * (n - 1) / 2\<close>
  calls of \<open>connect_nodes\<close>; the pair \<open>(i, j)\<close> is called exactly once when
  \<open>i < j < n\<close> and never otherwise, so no call is repeated, no node is connected to
  itself and no pair is tried in both directions.
\<close>

theorem full_mesh_attempts:
  "\<exists>w' new. create_fully_connected_topology e n w = (Inr (), w') \<and> calls w' = calls w @ new
     \<and> length new = n * (n - 1) div 2
     \<and> (\<forall>i j. count_list new (i, j) = (if i < j \<and> j < n then 1 else 0))
     \<and> distinct new
     \<and> (\<forall>i j. (i, j) \<in> set new \<longrightarrow> i \<noteq> j \<and> (j, i) \<notin> set new)"
proof -
  from full_calls [of e n w] obtain w' where
    r: "create_fully_connected_topology e n w = (Inr (), w')"
    and c: "calls w' = calls w @ full_edges n"
    by blast
  have cnt: "\<forall>i j. count_list (full_edges n) (i, j) = (if i < j \<and> j < n then 1 else 0)"
    by (simp add: full_count)
  have mem: "(i, j) \<in> set (full_edges n) \<longleftrightarrow> i < j \<and> j < n" for i j
  proof -
    have "(i, j) \<notin> set (full_edges n) \<longleftrightarrow> count_list (full_edges n) (i, j) = 0"
      by (simp add: count_list_0_iff)
    then show ?thesis by (simp add: full_count split: if_splits)
  qed
  have dist: "distinct (full_edges n)"
  proof (rule count_le_1_distinct)
    fix x :: "nat \<times> nat"
    show "count_list (full_edges n) x \<le> 1" by (cases x) (simp add: full_count)
  qed
  have rev: "\<forall>i j. (i, j) \<in> set (full_edges n) \<longrightarrow> i \<noteq> j \<and> (j, i) \<notin> set (full_edges n)"
    by (auto simp: mem)
  show ?thesis
    by (rule exI [of _ w'], rule exI [of _ "full_edges n"])
       (intro conjI r c cnt dist rev full_length)
qed

theorem full_mesh_attempts_witness:
  "\<exists>w'. create_fully_connected_topology healthy 4 fresh = (Inr (), w')
     \<and> length (calls w') = 6 \<and> count_list (calls w') (1, 3) = 1
     \<and> count_list (calls w') (3, 1) = 0 \<and> count_list (calls w') (2, 2) = 0
     \<and> distinct (calls w') \<and> (1, 3) \<in> set (calls w') \<and> (3, 1) \<notin> set (calls w')"
proof -
  from full_mesh_attempts [of healthy 4 fresh] obtain w' new where
    r: "create_fully_connected_topology healthy 4 fresh = (Inr (), w')"
    and c: "calls w' = calls fresh @ new" and l: "length new = 4 * (4 - 1) div 2"
    and cnt: "\<forall>i j. count_list new (i, j) = (if i < j \<and> j < 4 then 1 else 0)"
    and d: "distinct new"
    and m: "\<forall>i j. (i, j) \<in> set new \<longrightarrow> i \<noteq> j \<and> (j, i) \<notin> set new"
    by (elim exE conjE)
  have e: "calls w' = new" using c by (simp add: fresh_def)
  have c13: "count_list new (1, 3) = 1" and c31: "count_list new (3, 1) = 0"
    and c22: "count_list new (2, 2) = 0"
    using cnt by simp_all
  have m13: "(1, 3) \<in> set new" using c13 count_list_0_iff [of new "(1, 3)"] by simp
  have m31: "(3, 1) \<notin> set new" using c31 by (simp add: count_list_0_iff)
  have l6: "length new = 6" using l by simp
  show ?thesis
    by (rule exI [of _ w']) (simp only: e r l6 c13 c31 c22 d m13 m31 simp_thms)
qed

text \<open>
  C6 (grid), as the code has it. When the node count is not a perfect square,
  \<open>create_grid_topology\<close> raises the ValueError before any call. When it is \<open>s * s\<close>,
  the constructor returns normally, and the pair \<open>(a, b)\<close> is called exactly once when
  \<open>a = i * s + j\<close> is a cell and either \<open>b = a + 1\<close> with \<open>j < s - 1\<close> or \<open>b = a + s\<close>
  with \<open>i < s - 1\<close>, and never otherwise. So a cell outside the last row and the last
  column (every interior cell, and also the cells of the first row and first column
  that are not in the last ones) is the source of exactly 2 calls, a cell of the last
  row or last column other than the bottom-right corner of exactly 1, and the
  bottom-right corner of none.
\<close>

theorem grid_attempts:
  "(\<not> (\<exists>s. n = s * s) \<longrightarrow>
      create_grid_topology e n w =
        (Inl (ValueError ''Number of nodes must be a perfect square for grid topology''), w))
   \<and> (\<forall>s. n = s * s \<longrightarrow>
        (\<exists>w' new. create_grid_topology e n w = (Inr (), w') \<and> calls w' = calls w @ new
          \<and> (\<forall>a b. count_list new (a, b) =
                (if \<exists>i<s. \<exists>j<s. a = i * s + j
                      \<and> (b = a + 1 \<and> j < s - 1 \<or> b = a + s \<and> i < s - 1)
                 then 1 else 0))
          \<and> (\<forall>i<s. \<forall>j<s.
                (i < s - 1 \<and> j < s - 1 \<longrightarrow> count_list (map fst new) (i * s + j) = 2)
              \<and> ((i = s - 1) \<noteq> (j = s - 1) \<longrightarrow> count_list (map fst new) (i * s + j) = 1)
              \<and> (i = s - 1 \<and> j = s - 1 \<longrightarrow> count_list (map fst new) (i * s + j) = 0))))"
proof (intro conjI impI allI)
  assume "\<not> (\<exists>s. n = s * s)"
  then show "create_grid_topology e n w =
      (Inl (ValueError ''Number of nodes must be a perfect square for grid topology''), w)"
    by (rule grid_not_square)
next
  fix s assume n: "n = s * s"
  from grid_calls [of e s w] n obtain w' where
    r: "create_grid_topology e n w = (Inr (), w')"
    and c: "calls w' = calls w @ grid_edges s"
    by blast
  have cnts: "\<forall>a b. count_list (grid_edges s) (a, b) =
      (if \<exists>i<s. \<exists>j<s. a = i * s + j \<and> (b = a + 1 \<and> j < s - 1 \<or> b = a + s \<and> i < s - 1)
       then 1 else 0)"
    by (simp only: grid_count cell_ex simp_thms)
  have outs: "\<forall>i<s. \<forall>j<s.
      (i < s - 1 \<and> j < s - 1 \<longrightarrow> count_list (map fst (grid_edges s)) (i * s + j) = 2)
      \<and> ((i = s - 1) \<noteq> (j = s - 1) \<longrightarrow> count_list (map fst (grid_edges s)) (i * s + j) = 1)
      \<and> (i = s - 1 \<and> j = s - 1 \<longrightarrow> count_list (map fst (grid_edges s)) (i * s + j) = 0)"
  proof (intro allI impI)
    fix i j assume "i < s" and "j < s"
    note o = grid_out_cell [OF this]
    show "(i < s - 1 \<and> j < s - 1 \<longrightarrow> count_list (map fst (grid_edges s)) (i * s + j) = 2)
      \<and> ((i = s - 1) \<noteq> (j = s - 1) \<longrightarrow> count_list (map fst (grid_edges s)) (i * s + j) = 1)
      \<and> (i = s - 1 \<and> j = s - 1 \<longrightarrow> count_list (map fst (grid_edges s)) (i * s + j) = 0)"
      unfolding o using \<open>i < s\<close> \<open>j < s\<close> by auto
  qed
  show "\<exists>w' new. create_grid_topology e n w = (Inr (), w') \<and> calls w' = calls w @ new
          \<and> (\<forall>a b. count_list new (a, b) =
                (if \<exists>i<s. \<exists>j<s. a = i * s + j
                      \<and> (b = a + 1 \<and> j < s - 1 \<or> b = a + s \<and> i < s - 1)
                 then 1 else 0))
          \<and> (\<forall>i<s. \<forall>j<s.
                (i < s - 1 \<and> j < s - 1 \<longrightarrow> count_list (map fst new) (i * s + j) = 2)
              \<and> ((i = s - 1) \<noteq> (j = s - 1) \<longrightarrow> count_list (map fst new) (i * s + j) = 1)
              \<and> (i = s - 1 \<and> j = s - 1 \<longrightarrow> count_list (map fst new) (i * s + j) = 0))"
    by (rule exI [of _ w'], rule exI [of _ "grid_edges s"]) (intro conjI r c cnts outs)
qed

theorem grid_attempts_witness:
  "(\<exists>w'. create_grid_topology healthy 9 fresh = (Inr (), w')
      \<and> count_list (calls w') (4, 5) = 1 \<and> count_list (calls w') (4, 7) = 1
      \<and> count_list (map fst (calls w')) 4 = 2
      \<and> count_list (map fst (calls w')) 5 = 1
      \<and> count_list (map fst (calls w')) 8 = 0)
   \<and> create_grid_topology healthy 8 fresh =
        (Inl (ValueError ''Number of nodes must be a perfect square for grid topology''), fresh)"
proof -
  have "\<not> (\<exists>s::nat. 8 = s * s)"
  proof
    assume "\<exists>s::nat. 8 = s * s"
    then obtain s :: nat where s: "8 = s * s" ..
    have "s < 3"
    proof (rule ccontr)
      assume "\<not> s < 3"
      then have "3 \<le> s" by simp
      then have "3 * 3 \<le> s * s" by (rule mult_le_mono [OF _ \<open>3 \<le> s\<close>])
      with s show False by simp
    qed
    then consider "s = 0" | "s = 1" | "s = 2" by linarith
    then show False using s by cases simp_all
  qed
  with grid_attempts [of 8 healthy fresh]
  have bad: "create_grid_topology healthy 8 fresh =
        (Inl (ValueError ''Number of nodes must be a perfect square for grid topology''), fresh)"
    by blast
  have "(9::nat) = 3 * 3" by simp
  from grid_attempts [of 9 healthy fresh, THEN conjunct2, rule_format, OF this]
  obtain w' new where
    r: "create_grid_topology healthy 9 fresh = (Inr (), w')"
    and c: "calls w' = calls fresh @ new"
    and cnt: "\<forall>a b. count_list new (a, b) =
                (if \<exists>i<3. \<exists>j<3. a = i * 3 + j
                      \<and> (b = a + 1 \<and> j < 3 - 1 \<or> b = a + 3 \<and> i < 3 - 1)
                 then 1 else 0)"
    and out: "\<forall>i<3. \<forall>j<3.
                (i < 3 - 1 \<and> j < 3 - 1 \<longrightarrow> count_list (map fst new) (i * 3 + j) = 2)
              \<and> ((i = 3 - 1) \<noteq> (j = 3 - 1) \<longrightarrow> count_list (map fst new) (i * 3 + j) = 1)
              \<and> (i = 3 - 1 \<and> j = 3 - 1 \<longrightarrow> count_list (map fst new) (i * 3 + j) = 0)"
    by (elim exE conjE)
  have e: "calls w' = new" using c by (simp add: fresh_def)
  have "\<exists>i<3. \<exists>j<3. (4::nat) = i * 3 + j \<and> ((5::nat) = 4 + 1 \<and> j < 3 - 1 \<or> (5::nat) = 4 + 3 \<and> i < 3 - 1)"
    by (intro exI [of _ 1]) simp
  with cnt have c45: "count_list new (4, 5) = 1" by simp
  have "\<exists>i<3. \<exists>j<3. (4::nat) = i * 3 + j \<and> ((7::nat) = 4 + 1 \<and> j < 3 - 1 \<or> (7::nat) = 4 + 3 \<and> i < 3 - 1)"
    by (intro exI [of _ 1]) simp
  with cnt have c47: "count_list new (4, 7) = 1" by simp
  from out [rule_format, of 1 1] have o4: "count_list (map fst new) 4 = 2" by simp
  from out [rule_format, of 1 2] have o5: "count_list (map fst new) 5 = 1" by simp
  from out [rule_format, of 2 2] have o8: "count_list (map fst new) 8 = 0" by simp
  show ?thesis
    by (rule conjI [OF _ bad], rule exI [of _ w'])
       (simp only: e r c45 c47 o4 o5 o8 simp_thms)
qed

text \<open>
  C6 as stated fails on its summary sentence ("edge nodes 1"): in the 3 by 3 grid,
  node 1 (row 0, column 1: on the top edge, not a corner) is the source of two calls,
  \<open>connect_nodes(1, 2)\<close> and \<open>connect_nodes(1, 4)\<close>.
\<close>

theorem grid_top_edge_node_two_attempts:
  "count_list (map fst (calls (snd (create_grid_topology healthy 9 fresh)))) 1 = 2"
proof -
  from grid_calls [of healthy 3 fresh] obtain w' where
    "create_grid_topology healthy 9 fresh = (Inr (), w')"
    and "calls w' = calls fresh @ grid_edges 3"
    by auto
  then show ?thesis by (simp add: fresh_def grid_out_count)
qed

text \<open>
  C2 (preferential attachment), as the code has it. Outside \<open>1 \<le> m < n\<close> the
  constructor raises the ValueError before any call. Inside, in every run (whatever
  \<open>random.choices\<close> returns and whatever the cluster answers) the constructor returns
  normally, and the calls are, for each new node \<open>k = 1, ..., n - 1\<close> in turn, one call
  \<open>connect_nodes(k, t)\<close> per element \<open>t\<close> of the list \<open>draws !! (k - 1)\<close> selected for
  \<open>k\<close>, so \<open>k\<close> is the source of at most \<open>m\<close> calls.

  \<open>attach_nodes e n m [1..<k] draws ({0}, w)\<close> is the outer loop run on the new nodes below
  \<open>k\<close>: it gives the set \<open>connected\<close> (here \<open>C\<close>) and the world \<open>W\<close> that node \<open>k\<close> finds.
  Node 1 finds \<open>{0}\<close>. Node \<open>k\<close> finds a set \<open>C\<close> of nodes below \<open>k\<close> that holds node 0;
  the list selected for \<open>k\<close> has \<open>min(m, |C|)\<close> elements, all of them in \<open>C\<close>, at least one
  and at most \<open>m\<close>; and the next node finds \<open>C\<close> with \<open>k\<close> added if one of the attempts
  of \<open>k\<close> succeeded, and \<open>C\<close> itself otherwise. An attempt succeeds when \<open>connect_nodes\<close>
  returns True, which it does exactly when the target resolves, reports an identity and
  the connect command is answered 200 (\<open>connect_succeeds\<close>).

  Two consequences: in a cluster that refuses every connect command the set stays \<open>{0}\<close>,
  so every new node makes one attempt, to node 0; in a cluster where every request
  succeeds node \<open>k\<close> finds all the nodes below it and makes \<open>min(m, k)\<close> attempts.

  The list is drawn with replacement: its elements need not be distinct (see
  \<open>barabasi_albert_repeated_target\<close>).
\<close>

theorem barabasi_albert_attempts:
  assumes "create_barabasi_albert_topology e n m draws w = Some (r, w')"
  shows "(m < 1 \<or> int n \<le> m \<longrightarrow>
            r = Inl (ValueError ''Parameter 'm' must be >= 1 and less than the number of nodes'')
            \<and> w' = w)
     \<and> (1 \<le> m \<and> m < int n \<longrightarrow>
            r = Inr ()
            \<and> calls w' = calls w @ concat (map (\<lambda>k. map (Pair k) (draws !! (k - 1))) [1..<n])
            \<and> (\<forall>j. int (count_list (map fst
                       (concat (map (\<lambda>k. map (Pair k) (draws !! (k - 1))) [1..<n]))) j) \<le> m)
            \<and> attach_nodes e n (nat m) [1..<1] draws ({0}, w) = Some (Inr (), {0}, w)
            \<and> (\<forall>k. 1 \<le> k \<and> k < n \<longrightarrow>
                  (\<exists>C W. attach_nodes e n (nat m) [1..<k] draws ({0}, w) = Some (Inr (), C, W)
                     \<and> 0 \<in> C \<and> C \<subseteq> {0..<k}
                     \<and> length (draws !! (k - 1)) = min (nat m) (card C)
                     \<and> set (draws !! (k - 1)) \<subseteq> C
                     \<and> 1 \<le> length (draws !! (k - 1)) \<and> int (length (draws !! (k - 1))) \<le> m
                     \<and> attach_nodes e n (nat m) [1..<Suc k] draws ({0}, w) =
                         Some (Inr (),
                           (if \<exists>p<length (draws !! (k - 1)).
                                 connect_succeeds e k (draws !! (k - 1) ! p)
                                   (after_attempts e n k (take p (draws !! (k - 1))) W)
                            then insert k C else C),
                           after_attempts e n k (draws !! (k - 1)) W)))
            \<and> (\<exists>C. attach_nodes e n (nat m) [1..<n] draws ({0}, w) = Some (Inr (), C, w'))
            \<and> (\<forall>i j w0. i < n \<and> j < n \<longrightarrow>
                  fst (connect_nodes e n i j w0) = Inr (connect_succeeds e i j w0))
            \<and> ((\<forall>t i ip pid. post_swarm_connect e t i ip pid \<noteq> ConnStatus 200) \<longrightarrow>
                  (\<forall>k. 1 \<le> k \<and> k < n \<longrightarrow> draws !! (k - 1) = [0]))
            \<and> ((\<forall>t i. \<exists>ip. ip \<noteq> [] \<and> gethostbyname e t i = Resolved ip)
                \<and> (\<forall>t i. \<exists>pid. pid \<noteq> [] \<and> post_id e t i = IdValue (Some pid))
                \<and> (\<forall>t i ip pid. post_swarm_connect e t i ip pid = ConnStatus 200) \<longrightarrow>
                  (\<forall>k. 1 \<le> k \<and> k < n \<longrightarrow>
                     length (draws !! (k - 1)) = min (nat m) k
                     \<and> set (draws !! (k - 1)) \<subseteq> {0..<k})))"
proof (rule conjI; rule impI)
  assume "m < 1 \<or> int n \<le> m"
  with assms show "r = Inl (ValueError ''Parameter 'm' must be >= 1 and less than the number of nodes'')
            \<and> w' = w"
    by (auto simp: create_barabasi_albert_topology_def)
next
  assume m: "1 \<le> m \<and> m < int n"
  with assms obtain c' where
    a: "attach_nodes e n (nat m) [1..<n] draws ({0}, w) = Some (r, c', w')"
    by (auto simp: create_barabasi_albert_topology_def)
  from m have m0: "0 < nat m" and n1: "1 \<le> n" by simp_all
  from prefix_state [OF a n1 le_refl] obtain C0 W0 where
    "attach_nodes e n (nat m) [1..<n] draws ({0}, w) = Some (Inr (), C0, W0)"
    and "calls W0 = calls w @ concat (map (\<lambda>k. map (Pair k) (draws !! (k - 1))) [1..<n])"
    by (elim exE conjE)
  with a have r: "r = Inr ()"
    and c: "calls w' = calls w @ concat (map (\<lambda>k. map (Pair k) (draws !! (k - 1))) [1..<n])"
    by simp_all
  have i: "attach_nodes e n (nat m) [1..<1] draws ({0}, w) = Some (Inr (), {0}, w)"
    by simp
  have k: "\<forall>k. 1 \<le> k \<and> k < n \<longrightarrow>
                  (\<exists>C W. attach_nodes e n (nat m) [1..<k] draws ({0}, w) = Some (Inr (), C, W)
                     \<and> 0 \<in> C \<and> C \<subseteq> {0..<k}
                     \<and> length (draws !! (k - 1)) = min (nat m) (card C)
                     \<and> set (draws !! (k - 1)) \<subseteq> C
                     \<and> 1 \<le> length (draws !! (k - 1)) \<and> int (length (draws !! (k - 1))) \<le> m
                     \<and> attach_nodes e n (nat m) [1..<Suc k] draws ({0}, w) =
                         Some (Inr (),
                           (if \<exists>p<length (draws !! (k - 1)).
                                 connect_succeeds e k (draws !! (k - 1) ! p)
                                   (after_attempts e n k (take p (draws !! (k - 1))) W)
                            then insert k C else C),
                           after_attempts e n k (draws !! (k - 1)) W))"
  proof (intro allI impI, elim conjE)
    fix k :: nat assume k: "1 \<le> k" "k < n"
    from node_round [OF a k] obtain C W where
      1: "attach_nodes e n (nat m) [1..<k] draws ({0}, w) = Some (Inr (), C, W)"
      and 2: "0 \<in> C" and 3: "C \<subseteq> {0..<k}"
      and 4: "length (draws !! (k - 1)) = min (nat m) (card C)"
      and 5: "set (draws !! (k - 1)) \<subseteq> C"
      and 6: "attach_nodes e n (nat m) [1..<Suc k] draws ({0}, w) =
                         Some (Inr (),
                           (if \<exists>p<length (draws !! (k - 1)).
                                 connect_succeeds e k (draws !! (k - 1) ! p)
                                   (after_attempts e n k (take p (draws !! (k - 1))) W)
                            then insert k C else C),
                           after_attempts e n k (draws !! (k - 1)) W)"
      by (elim exE conjE)
    have "finite C" using 3 by (rule finite_subset) simp
    with 2 have "0 < card C" by (auto simp: card_gt_0_iff)
    with 4 m0 have 7: "1 \<le> length (draws !! (k - 1))" by simp
    from 4 m have 8: "int (length (draws !! (k - 1))) \<le> m" by linarith
    from 1 2 3 4 5 7 8 6
    show "\<exists>C W. attach_nodes e n (nat m) [1..<k] draws ({0}, w) = Some (Inr (), C, W)
                     \<and> 0 \<in> C \<and> C \<subseteq> {0..<k}
                     \<and> length (draws !! (k - 1)) = min (nat m) (card C)
                     \<and> set (draws !! (k - 1)) \<subseteq> C
                     \<and> 1 \<le> length (draws !! (k - 1)) \<and> int (length (draws !! (k - 1))) \<le> m
                     \<and> attach_nodes e n (nat m) [1..<Suc k] draws ({0}, w) =
                         Some (Inr (),
                           (if \<exists>p<length (draws !! (k - 1)).
                                 connect_succeeds e k (draws !! (k - 1) ! p)
                                   (after_attempts e n k (take p (draws !! (k - 1))) W)
                            then insert k C else C),
                           after_attempts e n k (draws !! (k - 1)) W)"
      by (intro exI [of _ C] exI [of _ W] conjI)
  qed
  have cnt: "\<forall>j. int (count_list (map fst
                       (concat (map (\<lambda>k. map (Pair k) (draws !! (k - 1))) [1..<n]))) j) \<le> m"
  proof
    fix j
    show "int (count_list (map fst
                       (concat (map (\<lambda>k. map (Pair k) (draws !! (k - 1))) [1..<n]))) j) \<le> m"
    proof (cases "1 \<le> j \<and> j < n")
      case True
      with k have "int (length (draws !! (j - 1))) \<le> m" by blast
      with True show ?thesis unfolding count_rounds by simp
    next
      case False
      with m show ?thesis unfolding count_rounds by auto
    qed
  qed
  have f: "\<exists>C. attach_nodes e n (nat m) [1..<n] draws ({0}, w) = Some (Inr (), C, w')"
    using a r by blast
  have p: "\<forall>i j w0. i < n \<and> j < n \<longrightarrow>
                  fst (connect_nodes e n i j w0) = Inr (connect_succeeds e i j w0)"
  proof (intro allI impI, elim conjE)
    fix i j w0 assume "i < n" "j < n"
    from connect_nodes_result [OF this, of e w0]
    show "fst (connect_nodes e n i j w0) = Inr (connect_succeeds e i j w0)" by auto
  qed
  have x: "(\<forall>t i ip pid. post_swarm_connect e t i ip pid \<noteq> ConnStatus 200) \<longrightarrow>
                  (\<forall>k. 1 \<le> k \<and> k < n \<longrightarrow> draws !! (k - 1) = [0])"
    using refused_draws [OF a m0] by blast
  have y: "(\<forall>t i. \<exists>ip. ip \<noteq> [] \<and> gethostbyname e t i = Resolved ip)
                \<and> (\<forall>t i. \<exists>pid. pid \<noteq> [] \<and> post_id e t i = IdValue (Some pid))
                \<and> (\<forall>t i ip pid. post_swarm_connect e t i ip pid = ConnStatus 200) \<longrightarrow>
                  (\<forall>k. 1 \<le> k \<and> k < n \<longrightarrow>
                     length (draws !! (k - 1)) = min (nat m) k
                     \<and> set (draws !! (k - 1)) \<subseteq> {0..<k})"
  proof (intro allI impI, elim conjE)
    fix k :: nat
    assume acc: "\<forall>t i. \<exists>ip. ip \<noteq> [] \<and> gethostbyname e t i = Resolved ip"
      "\<forall>t i. \<exists>pid. pid \<noteq> [] \<and> post_id e t i = IdValue (Some pid)"
      "\<forall>t i ip pid. post_swarm_connect e t i ip pid = ConnStatus 200"
      and k: "1 \<le> k" "k < n"
    show "length (draws !! (k - 1)) = min (nat m) k \<and> set (draws !! (k - 1)) \<subseteq> {0..<k}"
      by (rule accepted_draws [OF a m0 acc k])
  qed
  show "r = Inr ()
            \<and> calls w' = calls w @ concat (map (\<lambda>k. map (Pair k) (draws !! (k - 1))) [1..<n])
            \<and> (\<forall>j. int (count_list (map fst
                       (concat (map (\<lambda>k. map (Pair k) (draws !! (k - 1))) [1..<n]))) j) \<le> m)
            \<and> attach_nodes e n (nat m) [1..<1] draws ({0}, w) = Some (Inr (), {0}, w)
            \<and> (\<forall>k. 1 \<le> k \<and> k < n \<longrightarrow>
                  (\<exists>C W. attach_nodes e n (nat m) [1..<k] draws ({0}, w) = Some (Inr (), C, W)
                     \<and> 0 \<in> C \<and> C \<subseteq> {0..<k}
                     \<and> length (draws !! (k - 1)) = min (nat m) (card C)
                     \<and> set (draws !! (k - 1)) \<subseteq> C
                     \<and> 1 \<le> length (draws !! (k - 1)) \<and> int (length (draws !! (k - 1))) \<le> m
                     \<and> attach_nodes e n (nat m) [1..<Suc k] draws ({0}, w) =
                         Some (Inr (),
                           (if \<exists>p<length (draws !! (k - 1)).
                                 connect_succeeds e k (draws !! (k - 1) ! p)
                                   (after_attempts e n k (take p (draws !! (k - 1))) W)
                            then insert k C else C),
                           after_attempts e n k (draws !! (k - 1)) W)))
            \<and> (\<exists>C. attach_nodes e n (nat m) [1..<n] draws ({0}, w) = Some (Inr (), C, w'))
            \<and> (\<forall>i j w0. i < n \<and> j < n \<longrightarrow>
                  fst (connect_nodes e n i j w0) = Inr (connect_succeeds e i j w0))
            \<and> ((\<forall>t i ip pid. post_swarm_connect e t i ip pid \<noteq> ConnStatus 200) \<longrightarrow>
                  (\<forall>k. 1 \<le> k \<and> k < n \<longrightarrow> draws !! (k - 1) = [0]))
            \<and> ((\<forall>t i. \<exists>ip. ip \<noteq> [] \<and> gethostbyname e t i = Resolved ip)
                \<and> (\<forall>t i. \<exists>pid. pid \<noteq> [] \<and> post_id e t i = IdValue (Some pid))
                \<and> (\<forall>t i ip pid. post_swarm_connect e t i ip pid = ConnStatus 200) \<longrightarrow>
                  (\<forall>k. 1 \<le> k \<and> k < n \<longrightarrow>
                     length (draws !! (k - 1)) = min (nat m) k
                     \<and> set (draws !! (k - 1)) \<subseteq> {0..<k}))"
    by (intro conjI r c cnt i k f p x y)
qed

theorem barabasi_albert_attempts_witness:
  "create_barabasi_albert_topology healthy 3 2 ([0] ## [0, 1] ## sconst []) fresh
     = Some (Inr (), \<lparr>clock = 9, calls = [(1, 0), (2, 0), (2, 1)], topology_log = []\<rparr>)
   \<and> (\<exists>W. attach_nodes healthy 3 2 [1..<2] ([0] ## [0, 1] ## sconst []) ({0}, fresh)
            = Some (Inr (), insert 1 {0}, W))
   \<and> length [0, 1 :: nat] = min 2 (card (insert (1::nat) {0}))
   \<and> create_barabasi_albert_topology refusing 3 2 ([0] ## [0] ## sconst []) fresh
     = Some (Inr (), \<lparr>clock = 6, calls = [(1, 0), (2, 0)], topology_log = []\<rparr>)
   \<and> (\<exists>W. attach_nodes refusing 3 2 [1..<2] ([0] ## [0] ## sconst []) ({0}, fresh)
            = Some (Inr (), {0}, W))
   \<and> ([0] ## [0] ## sconst ([]::nat list)) !! (2 - 1) = [0]
   \<and> length (([0] ## [0, 1] ## sconst ([]::nat list)) !! (2 - 1)) = min (nat 2) 2
   \<and> create_barabasi_albert_topology refusing 3 2 ([0] ## [0, 1] ## sconst []) fresh = None
   \<and> create_barabasi_albert_topology healthy 3 3 ([0] ## [0, 1] ## sconst []) fresh
     = Some (Inl (ValueError ''Parameter 'm' must be >= 1 and less than the number of nodes''),
             fresh)"
proof -
  let ?d = "[0] ## [0, 1] ## sconst ([]::nat list)"
  let ?rd = "[0] ## [0] ## sconst ([]::nat list)"
  have m: "(1::int) \<le> 2 \<and> 2 < int 3" by simp
  have ev: "create_barabasi_albert_topology healthy 3 2 ?d fresh
     = Some (Inr (), \<lparr>clock = 9, calls = [(1, 0), (2, 0), (2, 1)], topology_log = []\<rparr>)"
    by (simp add: create_barabasi_albert_topology_def upt_conv_Cons choices_ok_def
      connect_nodes_def resolve_container_ip_def get_node_id_def healthy_def fresh_def
      tick_def falsy_def Let_def)
  note t = barabasi_albert_attempts [OF ev, THEN conjunct2, rule_format, OF m]
  from t have "\<forall>k. 1 \<le> k \<and> k < 3 \<longrightarrow>
      (\<exists>C W. attach_nodes healthy 3 (nat 2) [1..<k] ?d ({0}, fresh) = Some (Inr (), C, W)
         \<and> 0 \<in> C \<and> C \<subseteq> {0..<k}
         \<and> length (?d !! (k - 1)) = min (nat 2) (card C)
         \<and> set (?d !! (k - 1)) \<subseteq> C
         \<and> 1 \<le> length (?d !! (k - 1)) \<and> int (length (?d !! (k - 1))) \<le> 2
         \<and> attach_nodes healthy 3 (nat 2) [1..<Suc k] ?d ({0}, fresh) =
             Some (Inr (),
               (if \<exists>p<length (?d !! (k - 1)).
                     connect_succeeds healthy k (?d !! (k - 1) ! p)
                       (after_attempts healthy 3 k (take p (?d !! (k - 1))) W)
                then insert k C else C),
               after_attempts healthy 3 k (?d !! (k - 1)) W))"
    by (elim conjE)
  from this [rule_format, of 1] obtain C W where
    1: "attach_nodes healthy 3 (nat 2) [1..<1] ?d ({0}, fresh) = Some (Inr (), C, W)"
    and 2: "attach_nodes healthy 3 (nat 2) [1..<Suc 1] ?d ({0}, fresh) =
             Some (Inr (),
               (if \<exists>p<length (?d !! (1 - 1)).
                     connect_succeeds healthy 1 (?d !! (1 - 1) ! p)
                       (after_attempts healthy 3 1 (take p (?d !! (1 - 1))) W)
                then insert 1 C else C),
               after_attempts healthy 3 1 (?d !! (1 - 1)) W)"
    by auto
  from 1 have C: "C = {0}" and W: "W = fresh" by simp_all
  have n2: "nat 2 = (2::nat)" "Suc 1 = 2" by simp_all
  have s: "\<exists>p<length (?d !! (1 - 1)).
                     connect_succeeds healthy 1 (?d !! (1 - 1) ! p)
                       (after_attempts healthy 3 1 (take p (?d !! (1 - 1))) fresh)"
    by (rule exI [of _ 0]) (simp add: connect_succeeds_def healthy_def after_attempts_def)
  from 2 [unfolded C W] s
  have "attach_nodes healthy 3 (nat 2) [1..<Suc 1] ?d ({0}, fresh) =
             Some (Inr (), insert 1 {0}, after_attempts healthy 3 1 (?d !! (1 - 1)) fresh)"
    by (simp only: if_True)
  then have a: "\<exists>W. attach_nodes healthy 3 2 [1..<2] ?d ({0}, fresh)
            = Some (Inr (), insert 1 {0}, W)"
    unfolding n2 by (rule exI)
  have b: "length [0, 1 :: nat] = min 2 (card (insert (1::nat) {0}))" by simp
  have ev0: "create_barabasi_albert_topology refusing 3 2 ?rd fresh
     = Some (Inr (), \<lparr>clock = 6, calls = [(1, 0), (2, 0)], topology_log = []\<rparr>)"
    by (simp add: create_barabasi_albert_topology_def upt_conv_Cons choices_ok_def
      connect_nodes_def resolve_container_ip_def get_node_id_def refusing_def healthy_def
      fresh_def tick_def falsy_def Let_def)
  note t0 = barabasi_albert_attempts [OF ev0, THEN conjunct2, rule_format, OF m]
  from t0 have "\<forall>k. 1 \<le> k \<and> k < 3 \<longrightarrow>
      (\<exists>C W. attach_nodes refusing 3 (nat 2) [1..<k] ?rd ({0}, fresh) = Some (Inr (), C, W)
         \<and> 0 \<in> C \<and> C \<subseteq> {0..<k}
         \<and> length (?rd !! (k - 1)) = min (nat 2) (card C)
         \<and> set (?rd !! (k - 1)) \<subseteq> C
         \<and> 1 \<le> length (?rd !! (k - 1)) \<and> int (length (?rd !! (k - 1))) \<le> 2
         \<and> attach_nodes refusing 3 (nat 2) [1..<Suc k] ?rd ({0}, fresh) =
             Some (Inr (),
               (if \<exists>p<length (?rd !! (k - 1)).
                     connect_succeeds refusing k (?rd !! (k - 1) ! p)
                       (after_attempts refusing 3 k (take p (?rd !! (k - 1))) W)
                then insert k C else C),
               after_attempts refusing 3 k (?rd !! (k - 1)) W))"
    by (elim conjE)
  from this [rule_format, of 1] obtain C0 W0 where
    3: "attach_nodes refusing 3 (nat 2) [1..<1] ?rd ({0}, fresh) = Some (Inr (), C0, W0)"
    and 4: "attach_nodes refusing 3 (nat 2) [1..<Suc 1] ?rd ({0}, fresh) =
             Some (Inr (),
               (if \<exists>p<length (?rd !! (1 - 1)).
                     connect_succeeds refusing 1 (?rd !! (1 - 1) ! p)
                       (after_attempts refusing 3 1 (take p (?rd !! (1 - 1))) W0)
                then insert 1 C0 else C0),
               after_attempts refusing 3 1 (?rd !! (1 - 1)) W0)"
    by auto
  from 3 have C0: "C0 = {0}" and W0: "W0 = fresh" by simp_all
  have s0: "\<not> (\<exists>p<length (?rd !! (1 - 1)).
                     connect_succeeds refusing 1 (?rd !! (1 - 1) ! p)
                       (after_attempts refusing 3 1 (take p (?rd !! (1 - 1))) fresh))"
    by (simp add: connect_succeeds_def refusing_def healthy_def after_attempts_def)
  from 4 [unfolded C0 W0] s0
  have "attach_nodes refusing 3 (nat 2) [1..<Suc 1] ?rd ({0}, fresh) =
             Some (Inr (), {0}, after_attempts refusing 3 1 (?rd !! (1 - 1)) fresh)"
    by (simp only: if_False)
  then have c: "\<exists>W. attach_nodes refusing 3 2 [1..<2] ?rd ({0}, fresh)
            = Some (Inr (), {0}, W)"
    unfolding n2 by (rule exI)
  have "\<forall>t i ip pid. post_swarm_connect refusing t i ip pid \<noteq> ConnStatus 200"
    by (simp add: refusing_def)
  with t0 have "\<forall>k. 1 \<le> k \<and> k < 3 \<longrightarrow> ?rd !! (k - 1) = [0]" by blast
  then have rf: "?rd !! (2 - 1) = [0]" by (rule allE [of _ 2]) simp
  have "(\<forall>t i. \<exists>ip. ip \<noteq> [] \<and> gethostbyname healthy t i = Resolved ip)
      \<and> (\<forall>t i. \<exists>pid. pid \<noteq> [] \<and> post_id healthy t i = IdValue (Some pid))
      \<and> (\<forall>t i ip pid. post_swarm_connect healthy t i ip pid = ConnStatus 200)"
    by (simp add: healthy_def)
  with t have "\<forall>k. 1 \<le> k \<and> k < 3 \<longrightarrow>
      length (?d !! (k - 1)) = min (nat 2) k \<and> set (?d !! (k - 1)) \<subseteq> {0..<k}"
    by blast
  then have ac: "length (?d !! (2 - 1)) = min (nat 2) 2" by (rule allE [of _ 2]) simp
  have d: "create_barabasi_albert_topology refusing 3 2 ?d fresh = None"
    by (simp add: create_barabasi_albert_topology_def upt_conv_Cons choices_ok_def
      connect_nodes_def resolve_container_ip_def get_node_id_def refusing_def healthy_def
      fresh_def tick_def falsy_def Let_def)
  have ev3: "create_barabasi_albert_topology healthy 3 3 ?d fresh
     = Some (Inl (ValueError ''Parameter 'm' must be >= 1 and less than the number of nodes''),
             fresh)"
    by (simp add: create_barabasi_albert_topology_def)
  from ev a b ev0 c rf ac d ev3 show ?thesis by (intro conjI)
qed

text \<open>
  C2 as stated fails on "without replacement": with three nodes and \<open>m = 2\<close>,
  \<open>random.choices([0, 1], [0.5, 0.5], k=2)\<close> may return \<open>[0, 0]\<close>, and node 2 then calls
  \<open>connect_nodes(2, 0)\<close> twice.
\<close>

theorem barabasi_albert_repeated_target:
  "map_option (calls \<circ> snd)
     (create_barabasi_albert_topology healthy 3 2 ([0] ## [0, 0] ## sconst []) fresh)
   = Some [(1, 0), (2, 0), (2, 0)]"
  by (simp add: create_barabasi_albert_topology_def upt_conv_Cons choices_ok_def
      connect_nodes_def resolve_container_ip_def get_node_id_def healthy_def fresh_def
      tick_def falsy_def Let_def)


section \<open>The claim about the verifier\<close>

text \<open>
  C10 (verification). First conjunct, for one peer session of node \<open>i\<close> that is scanned
  from time \<open>clock w\<close> on (the sessions scanned are those that pass \<open>is_kad\<close>, see
  \<open>read_node\<close>): the scan never raises, keeps the shape of the matrix, and sets entry
  \<open>(i, j)\<close> to 1 for every \<open>j < n\<close> whose identity, as fetched during this scan, equals
  the peer identity of the session (every such \<open>j\<close>, not only the first), leaving every
  other entry as it was; when no index matches, the matrix is unchanged. Second conjunct,
  for the whole pass, whatever the cluster answers (also when peer queries raise or are
  not answered 200): the matrix returned has \<open>n\<close> rows of length \<open>n\<close>, every entry is 0 or
  1, and entry \<open>(i, j)\<close> is 1 exactly when the peer query of node \<open>i\<close> was answered 200 and
  one of its sessions that pass the filter has the identity fetched for \<open>j\<close> during the
  scan of that session.
\<close>

theorem verifier_marks_all_matches:
  "(i < n \<and> square n matrix \<longrightarrow>
      (\<exists>matrix' w'. mark_peer e n i peer (matrix, w) = (Inr (), matrix', w')
         \<and> square n matrix'
         \<and> (\<forall>j<n. matrix' ! i ! j =
               (if node_id_at e (clock w + j) j = Peer peer then 1 else matrix ! i ! j))
         \<and> (\<forall>r<n. r \<noteq> i \<longrightarrow> matrix' ! r = matrix ! r)
         \<and> ((\<forall>j<n. node_id_at e (clock w + j) j \<noteq> Peer peer) \<longrightarrow> matrix' = matrix)))
   \<and> (\<exists>M w'. read_connection_matrix e n w = (M, w')
         \<and> length M = n \<and> (\<forall>i<n. length (M ! i) = n)
         \<and> (\<forall>i<n. \<forall>j<n. M ! i ! j = 0 \<or> M ! i ! j = 1)
         \<and> (\<forall>i<n. \<forall>j<n. M ! i ! j = 1 \<longleftrightarrow>
               (\<exists>peers k. post_swarm_peers e (asked_at e n w i) i = PeersReply 200 peers
                  \<and> k < length (filter is_kad peers)
                  \<and> node_id_at e (asked_at e n w i + 1 + k * n + j) j
                      = Peer (filter is_kad peers ! k))))"
proof (rule conjI)
  show "i < n \<and> square n matrix \<longrightarrow>
      (\<exists>matrix' w'. mark_peer e n i peer (matrix, w) = (Inr (), matrix', w')
         \<and> square n matrix'
         \<and> (\<forall>j<n. matrix' ! i ! j =
               (if node_id_at e (clock w + j) j = Peer peer then 1 else matrix ! i ! j))
         \<and> (\<forall>r<n. r \<noteq> i \<longrightarrow> matrix' ! r = matrix ! r)
         \<and> ((\<forall>j<n. node_id_at e (clock w + j) j \<noteq> Peer peer) \<longrightarrow> matrix' = matrix))"
  proof (rule impI, elim conjE)
    assume i: "i < n" and sq: "square n matrix"
    from mark_peer_row [OF i sq, of e peer w] obtain matrix' w' where
      f: "mark_peer e n i peer (matrix, w) = (Inr (), matrix', w')"
      and s: "square n matrix'"
      and o: "\<forall>r<n. r \<noteq> i \<longrightarrow> matrix' ! r = matrix ! r"
      and r: "\<forall>j<n. matrix' ! i ! j =
            (if node_id_at e (clock w + j) j = Peer peer then 1 else matrix ! i ! j)"
      by (elim exE conjE)
    have u: "(\<forall>j<n. node_id_at e (clock w + j) j \<noteq> Peer peer) \<longrightarrow> matrix' = matrix"
    proof
      assume none: "\<forall>j<n. node_id_at e (clock w + j) j \<noteq> Peer peer"
      have len: "length matrix' = n" "length matrix = n"
        and rows: "\<forall>r<n. length (matrix' ! r) = n" "\<forall>r<n. length (matrix ! r) = n"
        using s sq by (simp_all add: square_def)
      have "matrix' ! i = matrix ! i"
      proof (rule nth_equalityI)
        show "length (matrix' ! i) = length (matrix ! i)" using rows i by simp
      next
        fix j assume "j < length (matrix' ! i)"
        then have "j < n" using rows i by simp
        with r none show "matrix' ! i ! j = matrix ! i ! j" by simp
      qed
      with o have "\<forall>r<n. matrix' ! r = matrix ! r" by metis
      with len show "matrix' = matrix" by (simp add: list_eq_iff_nth_eq)
    qed
    show "\<exists>matrix' w'. mark_peer e n i peer (matrix, w) = (Inr (), matrix', w')
         \<and> square n matrix'
         \<and> (\<forall>j<n. matrix' ! i ! j =
               (if node_id_at e (clock w + j) j = Peer peer then 1 else matrix ! i ! j))
         \<and> (\<forall>r<n. r \<noteq> i \<longrightarrow> matrix' ! r = matrix ! r)
         \<and> ((\<forall>j<n. node_id_at e (clock w + j) j \<noteq> Peer peer) \<longrightarrow> matrix' = matrix)"
      by (rule exI [of _ matrix'], rule exI [of _ w']) (intro conjI f s r o u)
  qed
next
  from read_prefix [OF le_refl [of n], of e w] obtain M w' where
    f: "read_connection_matrix e n w = (M, w')"
    and s: "square n M"
    and r: "\<forall>i<n. \<forall>j<n. M ! i ! j =
            (if i < n \<and> (\<exists>peers k. post_swarm_peers e (asked_at e n w i) i = PeersReply 200 peers
                  \<and> k < length (filter is_kad peers)
                  \<and> node_id_at e (asked_at e n w i + 1 + k * n + j) j
                      = Peer (filter is_kad peers ! k))
             then 1 else 0)"
    unfolding read_connection_matrix_def by (elim exE conjE)
  have l: "length M = n" and rows: "\<forall>i<n. length (M ! i) = n"
    using s by (simp_all add: square_def)
  have b: "\<forall>i<n. \<forall>j<n. M ! i ! j = 0 \<or> M ! i ! j = 1"
  proof (intro allI impI)
    fix i j assume "i < n" and "j < n"
    with r have "M ! i ! j =
            (if i < n \<and> (\<exists>peers k. post_swarm_peers e (asked_at e n w i) i = PeersReply 200 peers
                  \<and> k < length (filter is_kad peers)
                  \<and> node_id_at e (asked_at e n w i + 1 + k * n + j) j
                      = Peer (filter is_kad peers ! k))
             then 1 else 0)" by blast
    then show "M ! i ! j = 0 \<or> M ! i ! j = 1" by (simp split: if_splits)
  qed
  have c: "\<forall>i<n. \<forall>j<n. M ! i ! j = 1 \<longleftrightarrow>
               (\<exists>peers k. post_swarm_peers e (asked_at e n w i) i = PeersReply 200 peers
                  \<and> k < length (filter is_kad peers)
                  \<and> node_id_at e (asked_at e n w i + 1 + k * n + j) j
                      = Peer (filter is_kad peers ! k))"
  proof (intro allI impI)
    fix i j assume i: "i < n" and j: "j < n"
    with r have "M ! i ! j =
            (if i < n \<and> (\<exists>peers k. post_swarm_peers e (asked_at e n w i) i = PeersReply 200 peers
                  \<and> k < length (filter is_kad peers)
                  \<and> node_id_at e (asked_at e n w i + 1 + k * n + j) j
                      = Peer (filter is_kad peers ! k))
             then 1 else 0)" by blast
    with i show "M ! i ! j = 1 \<longleftrightarrow>
               (\<exists>peers k. post_swarm_peers e (asked_at e n w i) i = PeersReply 200 peers
                  \<and> k < length (filter is_kad peers)
                  \<and> node_id_at e (asked_at e n w i + 1 + k * n + j) j
                      = Peer (filter is_kad peers ! k))"
      by (simp split: if_splits)
  qed
  show "\<exists>M w'. read_connection_matrix e n w = (M, w')
         \<and> length M = n \<and> (\<forall>i<n. length (M ! i) = n)
         \<and> (\<forall>i<n. \<forall>j<n. M ! i ! j = 0 \<or> M ! i ! j = 1)
         \<and> (\<forall>i<n. \<forall>j<n. M ! i ! j = 1 \<longleftrightarrow>
               (\<exists>peers k. post_swarm_peers e (asked_at e n w i) i = PeersReply 200 peers
                  \<and> k < length (filter is_kad peers)
                  \<and> node_id_at e (asked_at e n w i + 1 + k * n + j) j
                      = Peer (filter is_kad peers ! k)))"
    by (rule exI [of _ M], rule exI [of _ w']) (intro conjI f l rows b c)
qed

theorem verifier_marks_all_matches_witness:
  "square 3 (replicate 3 (replicate 3 0))
   \<and> (\<exists>matrix' w'. mark_peer twins 3 0 peer_B (replicate 3 (replicate 3 0), fresh)
                      = (Inr (), matrix', w')
         \<and> matrix' ! 0 ! 0 = 0 \<and> matrix' ! 0 ! 1 = 1 \<and> matrix' ! 0 ! 2 = 1
         \<and> matrix' ! 1 = replicate 3 0)
   \<and> fst (read_connection_matrix twins 3 fresh) = [[0, 1, 1], [0, 0, 0], [0, 0, 0]]
   \<and> length (fst (read_connection_matrix twins 3 fresh)) = 3"
proof -
  have sq: "square 3 (replicate 3 (replicate 3 0))"
    by (simp add: square_def)
  have "0 < (3::nat) \<and> square 3 (replicate 3 (replicate 3 0))" using sq by simp
  from verifier_marks_all_matches [THEN conjunct1, rule_format, OF this, of twins peer_B fresh]
  obtain matrix' w' where
    f: "mark_peer twins 3 0 peer_B (replicate 3 (replicate 3 0), fresh) = (Inr (), matrix', w')"
    and r: "\<forall>j<3. matrix' ! 0 ! j =
               (if node_id_at twins (clock fresh + j) j = Peer peer_B then 1
                else replicate 3 (replicate 3 0) ! 0 ! j)"
    and o: "\<forall>r<3. r \<noteq> 0 \<longrightarrow> matrix' ! r = replicate 3 (replicate 3 0) ! r"
    by (elim exE conjE)
  have ids: "node_id_at twins (clock fresh + 0) 0 \<noteq> Peer peer_B"
    "node_id_at twins (clock fresh + 1) 1 = Peer peer_B"
    "node_id_at twins (clock fresh + 2) 2 = Peer peer_B"
    by (simp_all add: node_id_at_def twins_def peer_B_def)
  from r [rule_format, of 0] ids have m0: "matrix' ! 0 ! 0 = 0" by simp
  from r [rule_format, of 1] ids have m1: "matrix' ! 0 ! 1 = 1" by simp
  from r [rule_format, of 2] ids have m2: "matrix' ! 0 ! 2 = 1" by simp
  from o [rule_format, of 1] have m3: "matrix' ! 1 = replicate 3 0" by simp
  have ev: "fst (read_connection_matrix twins 3 fresh) = [[0, 1, 1], [0, 0, 0], [0, 0, 0]]"
    by (simp add: read_connection_matrix_def read_node_def mark_peer_def check_node_def
      get_node_id_def twins_def fresh_def tick_def sessions_of_node_0_def peer_B_def
      kad_stream_def is_kad_def set_entry_def upt_conv_Cons numeral_3_eq_3)
  then have len: "length (fst (read_connection_matrix twins 3 fresh)) = 3" by simp
  have ex: "\<exists>matrix' w'. mark_peer twins 3 0 peer_B (replicate 3 (replicate 3 0), fresh)
                      = (Inr (), matrix', w')
         \<and> matrix' ! 0 ! 0 = 0 \<and> matrix' ! 0 ! 1 = 1 \<and> matrix' ! 0 ! 2 = 1
         \<and> matrix' ! 1 = replicate 3 0"
    by (rule exI [of _ matrix'], rule exI [of _ w']) (intro conjI f m0 m1 m2 m3)
  from sq ex ev len show ?thesis by (intro conjI)
qed


section \<open>Properties of the simulator\<close>

subsection \<open>The choice of the operation\<close>



lemma outcomes_set: "set (randint_outcomes a b) = {a..b}"
  by (simp add: randint_outcomes_def)








subsection \<open>The events of a run, case by case\<close>

lemma step_cases [consumes 1, case_names wake_raise wake_send reply_raise upload_ok
    upload_timeout download_ok download_timeout]:
  assumes "step num_nodes max_size ev s = Some s'"
  obtains
    (wake_raise) i op node sz d err where
      "length (tasks s') = length (tasks s)" "ev = Wake i op node sz" "i < length (tasks s)"
      "tasks s ! i = Sleeping d" "may_wake d (tasks s)"
      "run_operation_start num_nodes max_size (uploaded_files s) op node sz = Some (Inl err)"
      "s' = s\<lparr>tasks := (tasks s)[i := Raised err]\<rparr>"
  | (wake_send) i op node sz d req where
      "length (tasks s') = length (tasks s)" "ev = Wake i op node sz" "i < length (tasks s)"
      "tasks s ! i = Sleeping d" "may_wake d (tasks s)"
      "run_operation_start num_nodes max_size (uploaded_files s) op node sz = Some (Inr req)"
      "s' = s\<lparr>tasks := (tasks s)[i := Waiting req], requests := requests s @ [(i, req)]\<rparr>"
  | (reply_raise) i req where
      "length (tasks s') = length (tasks s)" "ev = Reply i Failed" "i < length (tasks s)"
      "tasks s ! i = Waiting req"
      "s' = s\<lparr>tasks := (tasks s)[i := Raised RequestError]\<rparr>"
  | (upload_ok) i node sz c where
      "length (tasks s') = length (tasks s)" "ev = Reply i (Ok c)" "i < length (tasks s)"
      "tasks s ! i = Waiting (Add node sz)"
      "s' = s\<lparr>uploaded_files := uploaded_files s @ [c],
                log_rows := log_rows s @
                  [\<lparr>row_node = node, row_op = Upload, file_size = sz, cid = c, success = True\<rparr>],
                tasks := (tasks s)[i := Done]\<rparr>"
  | (upload_timeout) i node sz where
      "length (tasks s') = length (tasks s)" "ev = Reply i TimedOut" "i < length (tasks s)"
      "tasks s ! i = Waiting (Add node sz)"
      "s' = s\<lparr>log_rows := log_rows s @
                  [\<lparr>row_node = node, row_op = Upload, file_size = sz, cid = ''error'',
                    success = False\<rparr>],
                tasks := (tasks s)[i := Done]\<rparr>"
  | (download_ok) i node c content where
      "length (tasks s') = length (tasks s)" "ev = Reply i (Ok content)" "i < length (tasks s)"
      "tasks s ! i = Waiting (Cat node c)"
      "s' = s\<lparr>log_rows := log_rows s @
                  [\<lparr>row_node = node, row_op = Download, file_size = int (length content),
                    cid = c, success = True\<rparr>],
                tasks := (tasks s)[i := Done]\<rparr>"
  | (download_timeout) i node c where
      "length (tasks s') = length (tasks s)" "ev = Reply i TimedOut" "i < length (tasks s)"
      "tasks s ! i = Waiting (Cat node c)"
      "s' = s\<lparr>log_rows := log_rows s @
                  [\<lparr>row_node = node, row_op = Download, file_size = 0, cid = c,
                    success = False\<rparr>],
                tasks := (tasks s)[i := Done]\<rparr>"
proof (cases ev)
  case (Wake i op node sz)
  with assms obtain d where i: "i < length (tasks s)" and t: "tasks s ! i = Sleeping d"
    and m: "may_wake d (tasks s)"
    by (auto simp: step_def split: if_splits task.splits)
  show thesis
  proof (cases "run_operation_start num_nodes max_size (uploaded_files s) op node sz")
    case None
    with assms Wake i t m show thesis by (simp add: step_def)
  next
    case (Some r)
    show thesis
    proof (cases r)
      case (Inl err)
      with assms Wake i t m Some have "s' = s\<lparr>tasks := (tasks s)[i := Raised err]\<rparr>"
        by (simp add: step_def)
      with Wake i t m Some Inl show thesis by (intro wake_raise) auto
    next
      case (Inr req)
      with assms Wake i t m Some
      have "s' = s\<lparr>tasks := (tasks s)[i := Waiting req], requests := requests s @ [(i, req)]\<rparr>"
        by (simp add: step_def)
      with Wake i t m Some Inr show thesis by (intro wake_send) auto
    qed
  qed
next
  case (Reply i resp)
  with assms obtain req where i: "i < length (tasks s)" and t: "tasks s ! i = Waiting req"
    by (auto simp: step_def split: if_splits task.splits)
  show thesis
  proof (cases resp)
    case Failed
    with assms Reply i t have "s' = s\<lparr>tasks := (tasks s)[i := Raised RequestError]\<rparr>"
      by (cases req)
        (simp_all add: step_def run_operation_finish_def upload_file_def download_file_def)
    with Reply i t Failed show thesis by (intro reply_raise) auto
  next
    case (Ok payload)
    show thesis
    proof (cases req)
      case (Add node sz)
      with assms Reply i t Ok show thesis
        by (intro upload_ok [of i payload node sz])
          (auto simp: step_def run_operation_finish_def upload_file_def log_action_def)
    next
      case (Cat node c)
      with assms Reply i t Ok show thesis
        by (intro download_ok [of i payload node c])
          (auto simp: step_def run_operation_finish_def download_file_def log_action_def)
    qed
  next
    case TimedOut
    show thesis
    proof (cases req)
      case (Add node sz)
      with assms Reply i t TimedOut show thesis
        by (intro upload_timeout [of i node sz])
          (auto simp: step_def run_operation_finish_def upload_file_def log_action_def)
    next
      case (Cat node c)
      with assms Reply i t TimedOut show thesis
        by (intro download_timeout [of i node c])
          (auto simp: step_def run_operation_finish_def download_file_def log_action_def)
    qed
  qed
qed

lemma run_invariant:
  assumes "run num_nodes max_size evs s = Some s'" and "P s"
    and "\<And>ev s s'. P s \<Longrightarrow> step num_nodes max_size ev s = Some s' \<Longrightarrow> P s'"
  shows "P s'"
  using assms(1, 2)
proof (induction evs arbitrary: s)
  case Nil
  then show ?case by simp
next
  case (Cons ev evs)
  then obtain s1 where 1: "step num_nodes max_size ev s = Some s1"
    and 2: "run num_nodes max_size evs s1 = Some s'"
    by (auto split: option.splits)
  from assms(3) [OF Cons.prems(2) 1] have "P s1" .
  with Cons.IH 2 show ?case by blast
qed


subsection \<open>What every event preserves\<close>

lemma files_logged_step:
  assumes "step num_nodes max_size ev s = Some s'" and "files_logged s"
  shows "files_logged s'"
  using assms by (cases rule: step_cases) (auto simp: files_logged_def)

lemma failures_marked_step:
  assumes "step num_nodes max_size ev s = Some s'" and "failures_marked s"
  shows "failures_marked s'"
  using assms by (cases rule: step_cases) (auto simp: failures_marked_def)

lemma count_done_update:
  assumes "i < length ts" and "ts ! i \<noteq> Done"
  shows "length (filter (\<lambda>t. t = Done) (ts[i := x]))
     = length (filter (\<lambda>t. t = Done) ts) + (if x = Done then 1 else 0)"
  using assms
proof (induction ts arbitrary: i)
  case Nil
  then show ?case by simp
next
  case (Cons t ts)
  then show ?case by (cases i) auto
qed

lemma rows_counted_step:
  assumes "step num_nodes max_size ev s = Some s'" and "rows_counted s"
  shows "rows_counted s'"
  using assms by (cases rule: step_cases) (auto simp: rows_counted_def count_done_update)

lemma tasks_length_step:
  assumes "step num_nodes max_size ev s = Some s'"
  shows "length (tasks s') = length (tasks s)"
  using assms by (cases rule: step_cases) auto

lemma uploaded_grows_step:
  assumes "step num_nodes max_size ev s = Some s'"
  shows "\<exists>ys. uploaded_files s' = uploaded_files s @ ys \<and> length ys \<le> 1"
  using assms by (cases rule: step_cases) auto

lemma rows_grow_step:
  assumes "step num_nodes max_size ev s = Some s'"
  shows "\<exists>ys. log_rows s' = log_rows s @ ys \<and> length ys \<le> 1"
  using assms by (cases rule: step_cases) auto


lemma sleeping_not_requested:
  assumes "requests_sound s" and "tasks s ! i = Sleeping d"
  shows "i \<notin> fst ` set (requests s)"
  using assms by (auto simp: requests_sound_def)

lemma requests_sound_step:
  assumes "step num_nodes max_size ev s = Some s'" and "requests_sound s"
  shows "requests_sound s'"
  using assms
proof (cases rule: step_cases)
  case (wake_raise i op node sz d err)
  from sleeping_not_requested [OF assms(2) wake_raise(4)]
  have ni: "\<forall>(j, req) \<in> set (requests s). j \<noteq> i" by force
  with assms(2) wake_raise(3) show ?thesis
    unfolding requests_sound_def wake_raise(7)
    by (auto simp: nth_list_update split: if_splits)
next
  case (wake_send i op node sz d req)
  from sleeping_not_requested [OF assms(2) wake_send(4)]
  have ni: "i \<notin> fst ` set (requests s)" .
  then have ni': "\<forall>(j, req) \<in> set (requests s). j \<noteq> i" by force
  with assms(2) ni wake_send(3) show ?thesis
    unfolding requests_sound_def wake_send(7)
    by (auto simp: nth_list_update split: if_splits)
next
  case (reply_raise i req)
  with assms(2) show ?thesis
    unfolding requests_sound_def reply_raise(5)
    by (auto simp: nth_list_update split: if_splits)
next
  case (upload_ok i node sz c)
  with assms(2) show ?thesis
    unfolding requests_sound_def upload_ok(5)
    by (auto simp: nth_list_update split: if_splits) force+
next
  case (upload_timeout i node sz)
  with assms(2) show ?thesis
    unfolding requests_sound_def upload_timeout(5)
    by (auto simp: nth_list_update split: if_splits) force+
next
  case (download_ok i node c content)
  with assms(2) show ?thesis
    unfolding requests_sound_def download_ok(5)
    by (auto simp: nth_list_update split: if_splits) force+
next
  case (download_timeout i node c)
  with assms(2) show ?thesis
    unfolding requests_sound_def download_timeout(5)
    by (auto simp: nth_list_update split: if_splits) force+
qed


lemma start_download_known:
  assumes "run_operation_start num_nodes max_size uploaded op node sz = Some (Inr (Cat n c))"
  shows "c \<in> set uploaded"
proof -
  from assms have "0 \<le> op" and "\<not> upload_chosen uploaded op" and "c = uploaded ! nat op"
    by (auto simp: run_operation_start_def outcomes_set split: if_splits)
  then show ?thesis by (simp add: upload_chosen_def)
qed

lemma start_empty_upload:
  assumes "run_operation_start num_nodes max_size [] op node sz = Some (Inr req)"
  shows "\<exists>n sz'. req = Add n sz'"
  using assms
  by (auto simp: run_operation_start_def outcomes_set upload_chosen_def split: if_splits)

lemma waiting_requested:
  assumes "requests_sound s" and "i < length (tasks s)" and "tasks s ! i = Waiting req"
  shows "(i, req) \<in> set (requests s)"
  using assms by (simp add: requests_sound_def)

lemma downloads_known_step:
  assumes "step num_nodes max_size ev s = Some s'" and "requests_sound s"
    and "downloads_known s"
  shows "downloads_known s'"
  using assms(1)
proof (cases rule: step_cases)
  case (wake_raise i op node sz d err)
  with assms(3) show ?thesis by (simp add: downloads_known_def)
next
  case (wake_send i op node sz d req)
  have "c \<in> set (uploaded_files s)" if "req = Cat n c" for n c
    using start_download_known wake_send(6) that by blast
  with assms(3) show ?thesis
    unfolding downloads_known_def wake_send(7) by auto
next
  case (reply_raise i req)
  with assms(3) show ?thesis by (simp add: downloads_known_def)
next
  case (upload_ok i node sz c)
  with assms(3) show ?thesis by (auto simp: downloads_known_def)
next
  case (upload_timeout i node sz)
  with assms(3) show ?thesis by (auto simp: downloads_known_def)
next
  case (download_ok i node c content)
  from waiting_requested [OF assms(2) download_ok(3,4)] assms(3)
  have "c \<in> set (uploaded_files s)" by (auto simp: downloads_known_def)
  with assms(3) show ?thesis
    unfolding downloads_known_def download_ok(5) by auto
next
  case (download_timeout i node c)
  from waiting_requested [OF assms(2) download_timeout(3,4)] assms(3)
  have "c \<in> set (uploaded_files s)" by (auto simp: downloads_known_def)
  with assms(3) show ?thesis
    unfolding downloads_known_def download_timeout(5) by auto
qed

lemma first_is_upload_step:
  assumes "step num_nodes max_size ev s = Some s'" and "requests_sound s"
    and "first_is_upload s"
  shows "first_is_upload s'"
  using assms(1)
proof (cases rule: step_cases)
  case (wake_raise i op node sz d err)
  with assms(3) show ?thesis by (auto simp: first_is_upload_def split: list.splits)
next
  case (wake_send i op node sz d req)
  show ?thesis
  proof (cases "requests s")
    case Nil
    with assms(3) have "uploaded_files s = []" by (simp add: first_is_upload_def)
    with wake_send(6) start_empty_upload obtain n sz' where "req = Add n sz'" by metis
    with Nil show ?thesis by (simp add: first_is_upload_def wake_send(7))
  next
    case (Cons a rest)
    with assms(3) show ?thesis by (simp add: first_is_upload_def wake_send(7))
  qed
next
  case (reply_raise i req)
  with assms(3) show ?thesis by (auto simp: first_is_upload_def split: list.splits)
next
  case (upload_ok i node sz c)
  from waiting_requested [OF assms(2) upload_ok(3,4)]
  obtain a rest where "requests s = a # rest" by (cases "requests s") auto
  with assms(3) show ?thesis by (simp add: first_is_upload_def upload_ok(5))
next
  case (upload_timeout i node sz)
  with assms(3) show ?thesis by (auto simp: first_is_upload_def split: list.splits)
next
  case (download_ok i node c content)
  with assms(3) show ?thesis by (auto simp: first_is_upload_def split: list.splits)
next
  case (download_timeout i node c)
  with assms(3) show ?thesis by (auto simp: first_is_upload_def split: list.splits)
qed


subsection \<open>The schedule, and what holds along a run\<close>

lemma schedule_length: "length (schedule fadd d xs) = length xs"
  by (induction xs arbitrary: d) simp_all

lemma schedule_nth:
  assumes "i < length xs"
  shows "schedule fadd d xs ! i = foldl fadd d (take (Suc i) xs)"
  using assms
proof (induction xs arbitrary: d i)
  case Nil
  then show ?case by simp
next
  case (Cons x xs)
  then show ?case by (cases i) simp_all
qed

lemma schedule_lower:
  assumes "\<forall>x \<in> set xs. 0 \<le> x" and "\<forall>x y. 0 \<le> y \<longrightarrow> x \<le> fadd x y"
  shows "\<forall>y \<in> set (schedule fadd d xs). d \<le> y"
  using assms(1)
proof (induction xs arbitrary: d)
  case Nil
  then show ?case by simp
next
  case (Cons x xs)
  then have 1: "\<forall>y \<in> set (schedule fadd (fadd d x) xs). fadd d x \<le> y" by simp
  from Cons.prems assms(2) have 2: "d \<le> fadd d x" by simp
  from 1 2 show ?case by fastforce
qed

lemma schedule_sorted:
  assumes "\<forall>x \<in> set xs. 0 \<le> x" and "\<forall>x y. 0 \<le> y \<longrightarrow> x \<le> fadd x y"
  shows "sorted (schedule fadd d xs)"
  using assms(1)
proof (induction xs arbitrary: d)
  case Nil
  then show ?case by simp
next
  case (Cons x xs)
  then have "\<forall>y \<in> set (schedule fadd (fadd d x) xs). fadd d x \<le> y"
    using schedule_lower [OF _ assms(2), of xs "fadd d x"] by simp
  with Cons show ?case by simp
qed

lemma initial_invariants:
  "files_logged (run_simulation fadd k samples)" "requests_sound (run_simulation fadd k samples)"
  "downloads_known (run_simulation fadd k samples)" "failures_marked (run_simulation fadd k samples)"
  "rows_counted (run_simulation fadd k samples)" "first_is_upload (run_simulation fadd k samples)"
  "length (tasks (run_simulation fadd k samples)) = nat k"
  by (auto simp: run_simulation_def files_logged_def requests_sound_def downloads_known_def
      failures_marked_def rows_counted_def first_is_upload_def schedule_length filter_empty_conv)

lemma run_invariants:
  assumes "run num_nodes max_size evs (run_simulation fadd k samples) = Some s"
  shows "files_logged s \<and> requests_sound s \<and> downloads_known s \<and> failures_marked s
     \<and> rows_counted s \<and> first_is_upload s \<and> length (tasks s) = nat k"
  using assms
proof (rule run_invariant)
  show "files_logged (run_simulation fadd k samples) \<and> requests_sound (run_simulation fadd k samples)
     \<and> downloads_known (run_simulation fadd k samples) \<and> failures_marked (run_simulation fadd k samples)
     \<and> rows_counted (run_simulation fadd k samples) \<and> first_is_upload (run_simulation fadd k samples)
     \<and> length (tasks (run_simulation fadd k samples)) = nat k"
    by (intro conjI initial_invariants)
next
  fix ev s s'
  assume inv: "files_logged s \<and> requests_sound s \<and> downloads_known s \<and> failures_marked s
     \<and> rows_counted s \<and> first_is_upload s \<and> length (tasks s) = nat k"
    and st: "step num_nodes max_size ev s = Some s'"
  then show "files_logged s' \<and> requests_sound s' \<and> downloads_known s' \<and> failures_marked s'
     \<and> rows_counted s' \<and> first_is_upload s' \<and> length (tasks s') = nat k"
    using files_logged_step requests_sound_step downloads_known_step failures_marked_step
      rows_counted_step first_is_upload_step tasks_length_step
    by metis
qed


lemma gather_returned:
  assumes "gather ts = Returned"
  shows "\<forall>t \<in> set ts. t = Done"
  using assms by (auto simp: gather_def list_all_iff split: option.splits if_splits)

lemma first_error_none:
  assumes "\<forall>t \<in> set ts. \<forall>err. t \<noteq> Raised err"
  shows "first_error ts = None"
  using assms by (induction ts rule: first_error.induct) auto


lemma all_done_requests:
  assumes "requests_sound s" and "\<forall>t \<in> set (tasks s). t = Done"
  shows "length (requests s) = length (tasks s)"
proof -
  have "set (map fst (requests s)) = {0..<length (tasks s)}"
  proof
    show "set (map fst (requests s)) \<subseteq> {0..<length (tasks s)}"
      using assms(1) by (auto simp: requests_sound_def)
    show "{0..<length (tasks s)} \<subseteq> set (map fst (requests s))"
      using assms by (auto simp: requests_sound_def)
  qed
  moreover have "distinct (map fst (requests s))"
    using assms(1) by (simp add: requests_sound_def)
  ultimately have "length (map fst (requests s)) = card {0..<length (tasks s)}"
    using distinct_card by metis
  then show ?thesis by simp
qed


lemmas sim_eval = run_simulation_def step_def gather_def may_wake_def run_operation_start_def
  run_operation_finish_def upload_file_def download_file_def log_action_def
  randint_outcomes_def upload_chosen_def arrivals_def three_operations_def
  numeral_3_eq_3 numeral_2_eq_2





lemma first_error_none_iff:
  "first_error ts = None \<longleftrightarrow> (\<forall>t \<in> set ts. \<forall>err. t \<noteq> Raised err)"
  by (induction ts rule: first_error.induct) auto

lemma gather_running_no_error:
  assumes "gather ts = Running"
  shows "first_error ts = None"
  using assms by (auto simp: gather_def split: option.splits)

lemma gather_after_done:
  assumes "gather ts = Running"
  shows "gather (ts[i := Done]) \<noteq> Propagated err"
proof -
  from assms have "\<forall>t \<in> set ts. \<forall>err. t \<noteq> Raised err"
    using gather_running_no_error first_error_none_iff by blast
  moreover have "set (ts[i := Done]) \<subseteq> insert Done (set ts)"
    by (rule set_update_subset_insert)
  ultimately have "\<forall>t \<in> set (ts[i := Done]). \<forall>err. t \<noteq> Raised err" by blast
  then have "first_error (ts[i := Done]) = None" by (simp add: first_error_none_iff)
  then show ?thesis by (simp add: gather_def)
qed




lemma sleeping_kept:
  assumes "run num_nodes max_size evs s0 = Some s"
  shows "\<forall>i<length (tasks s). \<forall>d. tasks s ! i = Sleeping d \<longrightarrow> tasks s0 ! i = Sleeping d"
proof -
  have "length (tasks s) = length (tasks s0)
      \<and> (\<forall>i<length (tasks s). \<forall>d. tasks s ! i = Sleeping d \<longrightarrow> tasks s0 ! i = Sleeping d)"
    using assms
  proof (rule run_invariant)
    show "length (tasks s0) = length (tasks s0)
      \<and> (\<forall>i<length (tasks s0). \<forall>d. tasks s0 ! i = Sleeping d \<longrightarrow> tasks s0 ! i = Sleeping d)"
      by simp
  next
    fix ev s s'
    assume inv: "length (tasks s) = length (tasks s0)
      \<and> (\<forall>i<length (tasks s). \<forall>d. tasks s ! i = Sleeping d \<longrightarrow> tasks s0 ! i = Sleeping d)"
      and st: "step num_nodes max_size ev s = Some s'"
    from st inv show "length (tasks s') = length (tasks s0)
      \<and> (\<forall>i<length (tasks s'). \<forall>d. tasks s' ! i = Sleeping d \<longrightarrow> tasks s0 ! i = Sleeping d)"
      by (cases rule: step_cases) (auto simp: nth_list_update split: if_splits)
  qed
  then show ?thesis by simp
qed

subsection \<open>Rows of the two logs\<close>

text \<open>
  No constructor and no pass of the verifier writes to the topology log: \<open>main\<close> appends
  the one row of a run. A request that fails with an exception other than a timeout
  leaves \<open>upload_file\<close> or \<open>download_file\<close> before \<open>_log_action\<close> is reached.
\<close>

lemma read_matrix_log:
  "topology_log (snd (read_connection_matrix e n w)) = topology_log w"
proof -
  from read_prefix [where m = n and n = n and e = e and w = w, OF le_refl] obtain M w' where
    "fold (read_node e n) [0..<n] (replicate n (replicate n 0), w) = (M, w')"
    and "topology_log w' = topology_log w"
    by (elim exE conjE)
  then show ?thesis by (simp add: read_connection_matrix_def)
qed

lemma grid_log:
  "topology_log (snd (create_grid_topology e n w)) = topology_log w"
proof (cases "floor_sqrt n * floor_sqrt n = n")
  case True
  from grid_calls [of e "floor_sqrt n" w] obtain w' where
    "create_grid_topology e (floor_sqrt n * floor_sqrt n) w = (Inr (), w')"
    and "topology_log w' = topology_log w"
    by (elim exE conjE)
  with True show ?thesis by simp
next
  case False
  then show ?thesis by (simp add: create_grid_topology_def Let_def)
qed

lemma barabasi_log:
  assumes "create_barabasi_albert_topology e n m draws w = Some (r, w')"
  shows "topology_log w' = topology_log w"
proof (cases "m < 1 \<or> int n \<le> m")
  case True
  with assms show ?thesis by (simp add: create_barabasi_albert_topology_def)
next
  case False
  with assms obtain res where
    a: "attach_nodes e n (nat m) [1..<n] draws ({0}, w) = Some res"
    and r: "(case res of (r, c, w') \<Rightarrow> (r, w')) = (r, w')"
    by (auto simp: create_barabasi_albert_topology_def)
  from False have m: "0 < nat m" by simp
  have "{0::nat} \<subseteq> {0..<1}" and "{0::nat} \<noteq> {}" by simp_all
  from attach_nodes_calls [OF a this m] obtain c1 w1 where
    "res = (Inr (), c1, w1)" and "topology_log w1 = topology_log w"
    by (elim exE conjE)
  with r show ?thesis by simp
qed

lemma create_topology_log:
  assumes "create_topology e n k draws w = Some (r, w')"
  shows "topology_log w' = topology_log w"
proof (cases k)
  case Ring
  from ring_calls [of e n w] obtain w1 where
    "create_ring_topology e n w = (Inr (), w1)" and "topology_log w1 = topology_log w"
    by (elim exE conjE)
  with assms Ring show ?thesis by (simp add: create_topology_def)
next
  case Grid
  with assms have "create_grid_topology e n w = (r, w')" by (simp add: create_topology_def)
  with grid_log [of e n w] show ?thesis by simp
next
  case Full
  from full_calls [of e n w] obtain w1 where
    "create_fully_connected_topology e n w = (Inr (), w1)" and "topology_log w1 = topology_log w"
    by (elim exE conjE)
  with assms Full show ?thesis by (simp add: create_topology_def)
next
  case Barabasi
  with assms have "create_barabasi_albert_topology e n 2 draws w = Some (r, w')"
    by (simp add: create_topology_def)
  then show ?thesis by (rule barabasi_log)
qed

lemma main_one_row:
  assumes "main e a draws w = Some (r, w')"
  shows "\<exists>row. topology_log w' = (if topology a = None then topology_log w else []) @ [row]"
proof (cases "matrix_only a")
  case True
  with assms show ?thesis
    by (auto simp: main_def Let_def log_execution_def read_matrix_log)
next
  case False
  show ?thesis
  proof (cases "topology a")
    case None
    with assms False show ?thesis by (auto simp: main_def Let_def log_execution_def)
  next
    case (Some k)
    with assms False obtain r1 w1 where
      c: "create_topology e (nat (nodes a)) k draws (w\<lparr>topology_log := []\<rparr>) = Some (r1, w1)"
      by (auto simp: main_def Let_def split: option.splits)
    from create_topology_log [OF c] have l: "topology_log w1 = []" by simp
    from assms False Some c l show ?thesis
      by (cases r1) (auto simp: main_def Let_def log_execution_def read_matrix_log)
  qed
qed

lemma first_error_raise:
  assumes "first_error ts = None" and "i < length ts"
  shows "first_error (ts[i := Raised err]) = Some err"
  using assms
proof (induction ts arbitrary: i)
  case Nil
  then show ?case by simp
next
  case (Cons t ts)
  then show ?case by (cases t; cases i) simp_all
qed

subsection \<open>Raised tasks and the order of the wake-ups\<close>

text \<open>
  A task that has raised stays so, and then \<open>gather\<close> has handed an exception on; a
  request that fails leaves no row; and a task wakes up only when no sleeping task has a
  smaller offset, so that the tasks that have woken up have the smaller offsets.
\<close>

lemma first_error_some:
  assumes "first_error ts = Some err"
  shows "\<exists>i<length ts. ts ! i = Raised err"
proof -
  from assms have "Raised err \<in> set ts"
    by (induction ts rule: first_error.induct) auto
  then show ?thesis by (auto simp: in_set_conv_nth)
qed

lemma gather_propagated:
  assumes "gather ts = Propagated err"
  shows "\<exists>i<length ts. ts ! i = Raised err"
proof -
  from assms have "first_error ts = Some err"
    by (auto simp: gather_def split: option.splits if_splits)
  then show ?thesis by (rule first_error_some)
qed

lemma gather_running:
  assumes "gather ts = Running"
  shows "(\<exists>i<length ts. ts ! i \<noteq> Done) \<and> (\<forall>i<length ts. \<forall>err. ts ! i \<noteq> Raised err)"
proof -
  from assms have n: "first_error ts = None" by (rule gather_running_no_error)
  with assms have "\<not> list_all (\<lambda>t. t = Done) ts" by (auto simp: gather_def split: if_splits)
  then have 1: "\<exists>i<length ts. ts ! i \<noteq> Done" by (auto simp: list_all_length)
  from n have 2: "\<forall>i<length ts. \<forall>err. ts ! i \<noteq> Raised err"
    by (auto simp: first_error_none_iff)
  from 1 2 show ?thesis by (rule conjI)
qed

lemma raised_gather:
  assumes "i < length ts" and "ts ! i = Raised err"
  shows "\<exists>err'. gather ts = Propagated err'"
proof -
  from assms have "Raised err \<in> set ts" by (metis nth_mem)
  then have "first_error ts \<noteq> None" by (auto simp: first_error_none_iff)
  then show ?thesis by (auto simp: gather_def)
qed

lemma raise_propagated:
  assumes "gather ts = Running" and "i < length ts"
  shows "gather (ts[i := Raised err]) = Propagated err"
proof -
  from assms(1) have "first_error ts = None" by (rule gather_running_no_error)
  from first_error_raise [OF this assms(2)] show ?thesis by (simp add: gather_def)
qed

lemma raised_stable:
  assumes "step num_nodes max_size ev s = Some s'" and "j < length (tasks s)"
    and "tasks s ! j = Raised err"
  shows "tasks s' ! j = Raised err"
  using assms by (cases rule: step_cases) (auto simp: nth_list_update)

lemma raised_run:
  assumes "run num_nodes max_size evs s = Some s'"
    and "j < length (tasks s) \<and> tasks s ! j = Raised err"
  shows "j < length (tasks s') \<and> tasks s' ! j = Raised err"
  using assms
proof (rule run_invariant)
  fix ev s s'
  assume "j < length (tasks s) \<and> tasks s ! j = Raised err"
    and "step num_nodes max_size ev s = Some s'"
  then show "j < length (tasks s') \<and> tasks s' ! j = Raised err"
    using raised_stable tasks_length_step by metis
qed

lemma rows_counted_run:
  assumes "run num_nodes max_size evs s = Some s'" and "rows_counted s"
  shows "rows_counted s'"
  using assms
proof (rule run_invariant)
  fix ev s s'
  assume "rows_counted s" and "step num_nodes max_size ev s = Some s'"
  then show "rows_counted s'" using rows_counted_step by blast
qed

lemma rows_below:
  assumes "rows_counted s" and "j < length (tasks s)" and "tasks s ! j \<noteq> Done"
  shows "length (log_rows s) < length (tasks s)"
proof -
  from assms(2) have "tasks s ! j \<in> set (tasks s)" by simp
  with assms(3) have "length (filter (\<lambda>t. t = Done) (tasks s)) < length (tasks s)"
    by (intro length_filter_less [of "tasks s ! j"]) simp_all
  with assms(1) show ?thesis by (simp add: rows_counted_def)
qed

lemma reply_failed:
  assumes "i < length (tasks s)" and "tasks s ! i = Waiting req"
  shows "step num_nodes max_size (Reply i Failed) s
     = Some (s\<lparr>tasks := (tasks s)[i := Raised RequestError]\<rparr>)"
  using assms
  by (cases req) (simp_all add: step_def run_operation_finish_def upload_file_def
      download_file_def)

lemma reply_row:
  assumes "i < length (tasks s)" and "tasks s ! i = Waiting req" and "resp \<noteq> Failed"
  shows "\<exists>s' row. step num_nodes max_size (Reply i resp) s = Some s'
     \<and> log_rows s' = log_rows s @ [row] \<and> success row = (resp \<noteq> TimedOut)
     \<and> tasks s' = (tasks s)[i := Done]"
  using assms
  by (cases req; cases resp)
    (simp_all add: step_def run_operation_finish_def upload_file_def download_file_def
      log_action_def)

lemma wake_least:
  assumes "step num_nodes max_size (Wake i op node sz) s = Some s'"
  shows "\<exists>d. tasks s ! i = Sleeping d
     \<and> (\<forall>j<length (tasks s). \<forall>d'. tasks s ! j = Sleeping d' \<longrightarrow> d \<le> d')
     \<and> (\<forall>d'. tasks s' ! i \<noteq> Sleeping d')"
proof -
  have l: "d \<le> d'" if "may_wake d ts" "j < length ts" "ts ! j = Sleeping d'" for d d' j ts
    using that by (auto simp: may_wake_def list_all_length split: task.splits)
  from assms show ?thesis
  proof (cases rule: step_cases)
    case (wake_raise i' op' node' sz' d err)
    then have "tasks s ! i = Sleeping d" "may_wake d (tasks s)"
      "\<forall>d'. tasks s' ! i \<noteq> Sleeping d'" by simp_all
    with l show ?thesis by blast
  next
    case (wake_send i' op' node' sz' d req)
    then have "tasks s ! i = Sleeping d" "may_wake d (tasks s)"
      "\<forall>d'. tasks s' ! i \<noteq> Sleeping d'" by simp_all
    with l show ?thesis by blast
  qed simp_all
qed

lemma wake_order:
  assumes "run num_nodes max_size evs s0 = Some s"
  shows "\<forall>i<length (tasks s). \<forall>j<length (tasks s). \<forall>d d'.
           (\<forall>x. tasks s ! i \<noteq> Sleeping x) \<and> tasks s0 ! i = Sleeping d
           \<and> tasks s ! j = Sleeping d' \<longrightarrow> d \<le> d'"
proof -
  let ?P = "\<lambda>s. length (tasks s) = length (tasks s0)
      \<and> (\<forall>i<length (tasks s). \<forall>d. tasks s ! i = Sleeping d \<longrightarrow> tasks s0 ! i = Sleeping d)
      \<and> (\<forall>i<length (tasks s). \<forall>j<length (tasks s). \<forall>d d'.
           (\<forall>x. tasks s ! i \<noteq> Sleeping x) \<and> tasks s0 ! i = Sleeping d
           \<and> tasks s ! j = Sleeping d' \<longrightarrow> d \<le> d')"
  have "?P s"
    using assms
  proof (rule run_invariant)
    show "?P s0" by auto
  next
    fix ev s s'
    assume inv: "?P s" and st: "step num_nodes max_size ev s = Some s'"
    from inv have len: "length (tasks s) = length (tasks s0)"
      and kept: "\<forall>i<length (tasks s). \<forall>d. tasks s ! i = Sleeping d \<longrightarrow> tasks s0 ! i = Sleeping d"
      and ord: "\<forall>i<length (tasks s). \<forall>j<length (tasks s). \<forall>d d'.
           (\<forall>x. tasks s ! i \<noteq> Sleeping x) \<and> tasks s0 ! i = Sleeping d
           \<and> tasks s ! j = Sleeping d' \<longrightarrow> d \<le> d'"
      by simp_all
    have wake: "?P s'"
      if i: "i < length (tasks s)" and t: "tasks s ! i = Sleeping d"
        and m: "may_wake d (tasks s)" and s': "tasks s' = (tasks s)[i := x]"
        and x: "\<forall>y. x \<noteq> Sleeping y" for i d x
    proof (intro conjI allI impI)
      show "length (tasks s') = length (tasks s0)" using s' len by simp
    next
      fix a da assume "a < length (tasks s')" "tasks s' ! a = Sleeping da"
      with s' x kept show "tasks s0 ! a = Sleeping da"
        by (cases "a = i") (auto simp: nth_list_update)
    next
      fix a b da db
      assume a: "a < length (tasks s')" and b: "b < length (tasks s')"
        and h: "(\<forall>x. tasks s' ! a \<noteq> Sleeping x) \<and> tasks s0 ! a = Sleeping da
           \<and> tasks s' ! b = Sleeping db"
      from h s' x b i have bi: "b \<noteq> i" by (auto simp: nth_list_update)
      with h s' have bs: "tasks s ! b = Sleeping db" by (simp add: nth_list_update)
      show "da \<le> db"
      proof (cases "a = i")
        case True
        with kept i t h have "da = d" by auto
        moreover from m b bs s' have "d \<le> db"
          by (auto simp: may_wake_def list_all_length split: task.splits)
        ultimately show ?thesis by simp
      next
        case False
        with h s' have "\<forall>x. tasks s ! a \<noteq> Sleeping x" by (simp add: nth_list_update)
        with ord a b h bs s' show ?thesis by auto
      qed
    qed
    have reply: "?P s'"
      if i: "i < length (tasks s)" and t: "tasks s ! i = Waiting req"
        and s': "tasks s' = (tasks s)[i := x]" and x: "\<forall>y. x \<noteq> Sleeping y" for i req x
    proof (intro conjI allI impI)
      show "length (tasks s') = length (tasks s0)" using s' len by simp
    next
      fix a da assume "a < length (tasks s')" "tasks s' ! a = Sleeping da"
      with s' x kept show "tasks s0 ! a = Sleeping da"
        by (cases "a = i") (auto simp: nth_list_update)
    next
      fix a b da db
      assume a: "a < length (tasks s')" and b: "b < length (tasks s')"
        and h: "(\<forall>x. tasks s' ! a \<noteq> Sleeping x) \<and> tasks s0 ! a = Sleeping da
           \<and> tasks s' ! b = Sleeping db"
      from h s' x b i have bs: "tasks s ! b = Sleeping db"
        by (cases "b = i") (auto simp: nth_list_update)
      from h s' t have "\<forall>x. tasks s ! a \<noteq> Sleeping x"
        by (cases "a = i") (auto simp: nth_list_update)
      with ord a b h bs s' show "da \<le> db" by auto
    qed
    from st show "?P s'"
    proof (cases rule: step_cases)
      case (wake_raise i op node sz d err)
      then show ?thesis by (intro wake [of i d "Raised err"]) simp_all
    next
      case (wake_send i op node sz d req)
      then show ?thesis by (intro wake [of i d "Waiting req"]) simp_all
    next
      case (reply_raise i req)
      then show ?thesis by (intro reply [of i req "Raised RequestError"]) simp_all
    next
      case (upload_ok i node sz c)
      then show ?thesis by (intro reply [of i "Add node sz" Done]) simp_all
    next
      case (upload_timeout i node sz)
      then show ?thesis by (intro reply [of i "Add node sz" Done]) simp_all
    next
      case (download_ok i node c content)
      then show ?thesis by (intro reply [of i "Cat node c" Done]) simp_all
    next
      case (download_timeout i node c)
      then show ?thesis by (intro reply [of i "Cat node c" Done]) simp_all
    qed
  qed
  then show ?thesis by simp
qed

section \<open>The claims about the simulator\<close>






text \<open>
  C5 (scheduler), as the code has it. \<open>run_simulation\<close> turns the first K inter-arrival
  samples into their running sums (formed with the addition of doubles, \<open>fadd\<close>) and
  creates one task per sum, sleeping until that offset: there are K tasks, the offset of
  task i is the sum of the first i + 1 samples, added from the left, and the offsets are
  nondecreasing when the samples are not negative (samples of an exponential
  distribution are not) and the addition of doubles is not lowered by a summand that is
  not negative.

  In every state of a run there are K tasks, no task has sent more than one request, and a
  task that still sleeps keeps its offset and has sent nothing. A task wakes up only when
  no sleeping task has a smaller offset, so every task that has woken up has an offset
  that is at most that of every task still sleeping.

  When \<open>gather\<close> returns, every task is done, K requests have been sent and K rows logged.
  But \<open>gather\<close> also hands control back to \<open>run_simulation\<close> by raising, as soon as one
  operation has raised (an exception other than a timeout is not caught): then one task
  has raised, fewer than K rows are logged, and other tasks may be unfinished (see
  \<open>control_returns_with_a_task_unfinished\<close>). While \<open>gather\<close> is suspended, some task is
  not done and none has raised. With K \<le> 0 there is no task, \<open>gather\<close> returns at once,
  and no request is sent and no row logged.
\<close>

theorem scheduler_join_barrier:
  "tasks (run_simulation fadd k samples)
     = map Sleeping (schedule fadd 0 (stake (nat k) samples))
   \<and> length (tasks (run_simulation fadd k samples)) = nat k
   \<and> (\<forall>i<nat k. schedule fadd 0 (stake (nat k) samples) ! i
          = foldl fadd 0 (take (Suc i) (stake (nat k) samples)))
   \<and> ((\<forall>x \<in> set (stake (nat k) samples). 0 \<le> x) \<and> (\<forall>x y. 0 \<le> y \<longrightarrow> x \<le> fadd x y) \<longrightarrow>
          sorted (schedule fadd 0 (stake (nat k) samples)))
   \<and> (\<forall>evs s. run num_nodes max_size evs (run_simulation fadd k samples) = Some s \<longrightarrow>
          length (tasks s) = nat k
          \<and> distinct (map fst (requests s))
          \<and> (\<forall>i<nat k. \<forall>d. tasks s ! i = Sleeping d \<longrightarrow>
                d = schedule fadd 0 (stake (nat k) samples) ! i
                \<and> i \<notin> fst ` set (requests s))
          \<and> (\<forall>i<nat k. \<forall>j<nat k.
                (\<forall>d. tasks s ! i \<noteq> Sleeping d) \<and> (\<exists>d. tasks s ! j = Sleeping d) \<longrightarrow>
                schedule fadd 0 (stake (nat k) samples) ! i
                  \<le> schedule fadd 0 (stake (nat k) samples) ! j)
          \<and> (\<forall>i op node sz s'. step num_nodes max_size (Wake i op node sz) s = Some s' \<longrightarrow>
                (\<exists>d. tasks s ! i = Sleeping d
                   \<and> (\<forall>j<nat k. \<forall>d'. tasks s ! j = Sleeping d' \<longrightarrow> d \<le> d')
                   \<and> (\<forall>d'. tasks s' ! i \<noteq> Sleeping d')))
          \<and> (gather (tasks s) = Returned \<longrightarrow>
                (\<forall>t \<in> set (tasks s). t = Done)
                \<and> length (requests s) = nat k \<and> length (log_rows s) = nat k)
          \<and> (\<forall>err. gather (tasks s) = Propagated err \<longrightarrow>
                (\<exists>i<nat k. tasks s ! i = Raised err) \<and> length (log_rows s) < nat k)
          \<and> (gather (tasks s) = Running \<longrightarrow>
                (\<exists>i<nat k. tasks s ! i \<noteq> Done)
                \<and> (\<forall>i<nat k. \<forall>err. tasks s ! i \<noteq> Raised err)))
   \<and> (k \<le> 0 \<longrightarrow>
          gather (tasks (run_simulation fadd k samples)) = Returned
          \<and> (\<forall>evs s. run num_nodes max_size evs (run_simulation fadd k samples) = Some s \<longrightarrow>
                tasks s = [] \<and> requests s = [] \<and> log_rows s = []))"
proof (intro conjI)
  let ?off = "schedule fadd 0 (stake (nat k) samples)"
  let ?start = "run_simulation fadd k samples"
  show t0: "tasks ?start = map Sleeping ?off"
    by (simp add: run_simulation_def)
  show "length (tasks ?start) = nat k"
    by (rule initial_invariants)
  show "\<forall>i<nat k. ?off ! i = foldl fadd 0 (take (Suc i) (stake (nat k) samples))"
    by (simp add: schedule_nth)
  show "(\<forall>x \<in> set (stake (nat k) samples). 0 \<le> x) \<and> (\<forall>x y. 0 \<le> y \<longrightarrow> x \<le> fadd x y) \<longrightarrow>
          sorted ?off"
    using schedule_sorted by blast
  have reach: "length (tasks s) = nat k
          \<and> distinct (map fst (requests s))
          \<and> (\<forall>i<nat k. \<forall>d. tasks s ! i = Sleeping d \<longrightarrow>
                d = ?off ! i \<and> i \<notin> fst ` set (requests s))
          \<and> (\<forall>i<nat k. \<forall>j<nat k.
                (\<forall>d. tasks s ! i \<noteq> Sleeping d) \<and> (\<exists>d. tasks s ! j = Sleeping d) \<longrightarrow>
                ?off ! i \<le> ?off ! j)
          \<and> (\<forall>i op node sz s'. step num_nodes max_size (Wake i op node sz) s = Some s' \<longrightarrow>
                (\<exists>d. tasks s ! i = Sleeping d
                   \<and> (\<forall>j<nat k. \<forall>d'. tasks s ! j = Sleeping d' \<longrightarrow> d \<le> d')
                   \<and> (\<forall>d'. tasks s' ! i \<noteq> Sleeping d')))
          \<and> (gather (tasks s) = Returned \<longrightarrow>
                (\<forall>t \<in> set (tasks s). t = Done)
                \<and> length (requests s) = nat k \<and> length (log_rows s) = nat k)
          \<and> (\<forall>err. gather (tasks s) = Propagated err \<longrightarrow>
                (\<exists>i<nat k. tasks s ! i = Raised err) \<and> length (log_rows s) < nat k)
          \<and> (gather (tasks s) = Running \<longrightarrow>
                (\<exists>i<nat k. tasks s ! i \<noteq> Done)
                \<and> (\<forall>i<nat k. \<forall>err. tasks s ! i \<noteq> Raised err))"
    if r: "run num_nodes max_size evs ?start = Some s" for evs s
  proof -
    from run_invariants [OF r] have rs: "requests_sound s" and rc: "rows_counted s"
      and len: "length (tasks s) = nat k" by simp_all
    have init: "tasks ?start ! i = Sleeping (?off ! i)" if "i < nat k" for i
      using that by (simp add: t0 schedule_length)
    have d: "distinct (map fst (requests s))" using rs by (simp add: requests_sound_def)
    have sl: "\<forall>i<nat k. \<forall>d. tasks s ! i = Sleeping d \<longrightarrow>
                d = ?off ! i \<and> i \<notin> fst ` set (requests s)"
    proof (intro allI impI)
      fix i d assume i: "i < nat k" and t: "tasks s ! i = Sleeping d"
      with sleeping_kept [OF r] len have "tasks ?start ! i = Sleeping d" by simp
      with init [OF i] have "d = ?off ! i" by simp
      with sleeping_not_requested [OF rs t]
      show "d = ?off ! i \<and> i \<notin> fst ` set (requests s)" by simp
    qed
    have wo: "\<forall>i<nat k. \<forall>j<nat k.
                (\<forall>d. tasks s ! i \<noteq> Sleeping d) \<and> (\<exists>d. tasks s ! j = Sleeping d) \<longrightarrow>
                ?off ! i \<le> ?off ! j"
    proof (intro allI impI)
      fix i j assume i: "i < nat k" and j: "j < nat k"
        and h: "(\<forall>d. tasks s ! i \<noteq> Sleeping d) \<and> (\<exists>d. tasks s ! j = Sleeping d)"
      then obtain d' where d': "tasks s ! j = Sleeping d'" by blast
      with sl j have e: "d' = ?off ! j" by blast
      from wake_order [OF r] i j len h d' init [OF i] have "?off ! i \<le> d'" by auto
      with e show "?off ! i \<le> ?off ! j" by simp
    qed
    have wl: "\<forall>i op node sz s'. step num_nodes max_size (Wake i op node sz) s = Some s' \<longrightarrow>
                (\<exists>d. tasks s ! i = Sleeping d
                   \<and> (\<forall>j<nat k. \<forall>d'. tasks s ! j = Sleeping d' \<longrightarrow> d \<le> d')
                   \<and> (\<forall>d'. tasks s' ! i \<noteq> Sleeping d'))"
      using wake_least len by metis
    have g: "gather (tasks s) = Returned \<longrightarrow>
                (\<forall>t \<in> set (tasks s). t = Done)
                \<and> length (requests s) = nat k \<and> length (log_rows s) = nat k"
    proof
      assume "gather (tasks s) = Returned"
      then have all: "\<forall>t \<in> set (tasks s). t = Done" by (rule gather_returned)
      then have "filter (\<lambda>t. t = Done) (tasks s) = tasks s" by (simp add: filter_id_conv)
      with rc len have "length (log_rows s) = nat k" by (simp add: rows_counted_def)
      with all all_done_requests [OF rs all] len
      show "(\<forall>t \<in> set (tasks s). t = Done)
                \<and> length (requests s) = nat k \<and> length (log_rows s) = nat k"
        by simp
    qed
    have p: "\<forall>err. gather (tasks s) = Propagated err \<longrightarrow>
                (\<exists>i<nat k. tasks s ! i = Raised err) \<and> length (log_rows s) < nat k"
    proof (intro allI impI)
      fix err assume "gather (tasks s) = Propagated err"
      from gather_propagated [OF this] len obtain i where
        i: "i < nat k" "tasks s ! i = Raised err" by auto
      with rows_below [OF rc, of i] len have "length (log_rows s) < nat k" by simp
      with i show "(\<exists>i<nat k. tasks s ! i = Raised err) \<and> length (log_rows s) < nat k"
        by blast
    qed
    have u: "gather (tasks s) = Running \<longrightarrow>
                (\<exists>i<nat k. tasks s ! i \<noteq> Done)
                \<and> (\<forall>i<nat k. \<forall>err. tasks s ! i \<noteq> Raised err)"
      using gather_running [of "tasks s"] len by simp
    from len d sl wo wl g p u show ?thesis by (intro conjI)
  qed
  then show "\<forall>evs s. run num_nodes max_size evs ?start = Some s \<longrightarrow>
          length (tasks s) = nat k
          \<and> distinct (map fst (requests s))
          \<and> (\<forall>i<nat k. \<forall>d. tasks s ! i = Sleeping d \<longrightarrow>
                d = ?off ! i \<and> i \<notin> fst ` set (requests s))
          \<and> (\<forall>i<nat k. \<forall>j<nat k.
                (\<forall>d. tasks s ! i \<noteq> Sleeping d) \<and> (\<exists>d. tasks s ! j = Sleeping d) \<longrightarrow>
                ?off ! i \<le> ?off ! j)
          \<and> (\<forall>i op node sz s'. step num_nodes max_size (Wake i op node sz) s = Some s' \<longrightarrow>
                (\<exists>d. tasks s ! i = Sleeping d
                   \<and> (\<forall>j<nat k. \<forall>d'. tasks s ! j = Sleeping d' \<longrightarrow> d \<le> d')
                   \<and> (\<forall>d'. tasks s' ! i \<noteq> Sleeping d')))
          \<and> (gather (tasks s) = Returned \<longrightarrow>
                (\<forall>t \<in> set (tasks s). t = Done)
                \<and> length (requests s) = nat k \<and> length (log_rows s) = nat k)
          \<and> (\<forall>err. gather (tasks s) = Propagated err \<longrightarrow>
                (\<exists>i<nat k. tasks s ! i = Raised err) \<and> length (log_rows s) < nat k)
          \<and> (gather (tasks s) = Running \<longrightarrow>
                (\<exists>i<nat k. tasks s ! i \<noteq> Done)
                \<and> (\<forall>i<nat k. \<forall>err. tasks s ! i \<noteq> Raised err))"
    by (intro allI impI)
  show "k \<le> 0 \<longrightarrow>
          gather (tasks ?start) = Returned
          \<and> (\<forall>evs s. run num_nodes max_size evs ?start = Some s \<longrightarrow>
                tasks s = [] \<and> requests s = [] \<and> log_rows s = [])"
  proof
    assume k: "k \<le> 0"
    then have e: "tasks ?start = []" by (simp add: run_simulation_def)
    then have g: "gather (tasks ?start) = Returned" by (simp add: gather_def)
    have "\<forall>evs s. run num_nodes max_size evs ?start = Some s \<longrightarrow>
                tasks s = [] \<and> requests s = [] \<and> log_rows s = []"
    proof (intro allI impI)
      fix evs s assume r: "run num_nodes max_size evs ?start = Some s"
      from run_invariants [OF r] k have rs: "requests_sound s" and rc: "rows_counted s"
        and t: "tasks s = []" by simp_all
      from rc t have l: "log_rows s = []" by (simp add: rows_counted_def)
      from rs t have q: "requests s = []"
        by (cases "requests s") (auto simp: requests_sound_def)
      from t q l show "tasks s = [] \<and> requests s = [] \<and> log_rows s = []" by (intro conjI)
    qed
    with g show "gather (tasks ?start) = Returned
          \<and> (\<forall>evs s. run num_nodes max_size evs ?start = Some s \<longrightarrow>
                tasks s = [] \<and> requests s = [] \<and> log_rows s = [])"
      by (rule conjI)
  qed
qed

theorem scheduler_join_barrier_witness:
  "schedule (+) 0 (stake (nat 3) arrivals) = [1, 3, 4] \<and> sorted [1, 3, 4 :: real]
   \<and> step 16 100 (Wake 2 2 7 500) (run_simulation (+) 3 arrivals) = None
   \<and> (\<exists>s'. step 16 100 (Wake 0 0 3 50) (run_simulation (+) 3 arrivals) = Some s'
         \<and> tasks s' = [Waiting (Add 3 50), Sleeping 3, Sleeping 4])
   \<and> (\<exists>s. run 16 100 three_operations (run_simulation (+) 3 arrivals) = Some s
          \<and> gather (tasks s) = Returned \<and> tasks s = [Done, Done, Done]
          \<and> length (requests s) = 3 \<and> length (log_rows s) = 3)
   \<and> (\<exists>s. run 16 100 (take 3 three_operations @ [Reply 1 Failed])
               (run_simulation (+) 3 arrivals) = Some s
          \<and> gather (tasks s) = Propagated RequestError
          \<and> tasks s = [Done, Raised RequestError, Sleeping 4]
          \<and> length (log_rows s) < 3)
   \<and> (\<exists>s. run 16 100 [] (run_simulation (+) 0 arrivals) = Some s
          \<and> gather (tasks s) = Returned \<and> tasks s = [] \<and> log_rows s = [])"
proof -
  let ?init = "run_simulation (+) 3 arrivals"
  note t = scheduler_join_barrier [of "(+)" 3 arrivals 16 100]
  have sch: "schedule (+) 0 (stake (nat 3) arrivals) = [1, 3, 4]"
    by (simp add: arrivals_def numeral_3_eq_3)
  have "(\<forall>x \<in> set (stake (nat 3) arrivals). 0 \<le> x) \<and> (\<forall>x y::real. 0 \<le> y \<longrightarrow> x \<le> x + y)"
    by (simp add: arrivals_def numeral_3_eq_3)
  with t have "sorted (schedule (+) 0 (stake (nat 3) arrivals))" by blast
  then have so: "sorted [1, 3, 4 :: real]" by (simp only: sch)
  from t have reach: "\<forall>evs s. run 16 100 evs ?init = Some s \<longrightarrow>
          length (tasks s) = nat 3
          \<and> distinct (map fst (requests s))
          \<and> (\<forall>i<nat 3. \<forall>d. tasks s ! i = Sleeping d \<longrightarrow>
                d = schedule (+) 0 (stake (nat 3) arrivals) ! i
                \<and> i \<notin> fst ` set (requests s))
          \<and> (\<forall>i<nat 3. \<forall>j<nat 3.
                (\<forall>d. tasks s ! i \<noteq> Sleeping d) \<and> (\<exists>d. tasks s ! j = Sleeping d) \<longrightarrow>
                schedule (+) 0 (stake (nat 3) arrivals) ! i
                  \<le> schedule (+) 0 (stake (nat 3) arrivals) ! j)
          \<and> (\<forall>i op node sz s'. step 16 100 (Wake i op node sz) s = Some s' \<longrightarrow>
                (\<exists>d. tasks s ! i = Sleeping d
                   \<and> (\<forall>j<nat 3. \<forall>d'. tasks s ! j = Sleeping d' \<longrightarrow> d \<le> d')
                   \<and> (\<forall>d'. tasks s' ! i \<noteq> Sleeping d')))
          \<and> (gather (tasks s) = Returned \<longrightarrow>
                (\<forall>t \<in> set (tasks s). t = Done)
                \<and> length (requests s) = nat 3 \<and> length (log_rows s) = nat 3)
          \<and> (\<forall>err. gather (tasks s) = Propagated err \<longrightarrow>
                (\<exists>i<nat 3. tasks s ! i = Raised err) \<and> length (log_rows s) < nat 3)
          \<and> (gather (tasks s) = Running \<longrightarrow>
                (\<exists>i<nat 3. tasks s ! i \<noteq> Done)
                \<and> (\<forall>i<nat 3. \<forall>err. tasks s ! i \<noteq> Raised err))"
    by (elim conjE)
  have r0: "run 16 100 [] ?init = Some ?init" by simp
  have late: "step 16 100 (Wake 2 2 7 500) ?init = None"
  proof (cases "step 16 100 (Wake 2 2 7 500) ?init")
    case None
    then show ?thesis .
  next
    case (Some s')
    from reach [rule_format, OF r0] have
      "\<forall>i op node sz s'. step 16 100 (Wake i op node sz) ?init = Some s' \<longrightarrow>
                (\<exists>d. tasks ?init ! i = Sleeping d
                   \<and> (\<forall>j<nat 3. \<forall>d'. tasks ?init ! j = Sleeping d' \<longrightarrow> d \<le> d')
                   \<and> (\<forall>d'. tasks s' ! i \<noteq> Sleeping d'))"
      by (elim conjE)
    from this [rule_format, OF Some] obtain d where
      d: "tasks ?init ! 2 = Sleeping d"
      and l: "\<forall>j<nat 3. \<forall>d'. tasks ?init ! j = Sleeping d' \<longrightarrow> d \<le> d'"
      by (elim exE conjE)
    have "tasks ?init = [Sleeping 1, Sleeping 3, Sleeping 4]"
      by (simp add: run_simulation_def arrivals_def numeral_3_eq_3)
    with d l [rule_format, of 0 1] have "d = 4" and "d \<le> 1" by simp_all
    then show ?thesis by simp
  qed
  have first: "\<exists>s'. step 16 100 (Wake 0 0 3 50) ?init = Some s'
         \<and> tasks s' = [Waiting (Add 3 50), Sleeping 3, Sleeping 4]"
    by (simp add: sim_eval)
  have ev: "run 16 100 three_operations ?init = Some
     \<lparr>uploaded_files = [''QmA''],
       log_rows = [\<lparr>row_node = 3, row_op = Upload, file_size = 50, cid = ''QmA'', success = True\<rparr>,
                   \<lparr>row_node = 5, row_op = Download, file_size = 0, cid = ''QmA'', success = False\<rparr>,
                   \<lparr>row_node = 7, row_op = Upload, file_size = 100, cid = ''error'', success = False\<rparr>],
       tasks = [Done, Done, Done],
       requests = [(0, Add 3 50), (1, Cat 5 ''QmA''), (2, Add 7 100)]\<rparr>"
      (is "_ = Some ?s")
    by (simp add: sim_eval)
  have gr: "gather (tasks ?s) = Returned" by (simp add: gather_def)
  from reach [rule_format, OF ev] gr
  have "length (requests ?s) = nat 3 \<and> length (log_rows ?s) = nat 3" by blast
  with ev gr have a: "\<exists>s. run 16 100 three_operations ?init = Some s
          \<and> gather (tasks s) = Returned \<and> tasks s = [Done, Done, Done]
          \<and> length (requests s) = 3 \<and> length (log_rows s) = 3"
    by (intro exI [of _ ?s]) simp
  have evf: "run 16 100 (take 3 three_operations @ [Reply 1 Failed]) ?init = Some
     \<lparr>uploaded_files = [''QmA''],
       log_rows = [\<lparr>row_node = 3, row_op = Upload, file_size = 50, cid = ''QmA'', success = True\<rparr>],
       tasks = [Done, Raised RequestError, Sleeping 4],
       requests = [(0, Add 3 50), (1, Cat 5 ''QmA'')]\<rparr>"
      (is "_ = Some ?f")
    by (simp add: sim_eval)
  have gf: "gather (tasks ?f) = Propagated RequestError" by (simp add: gather_def)
  from reach [rule_format, OF evf] gf
  have "length (log_rows ?f) < nat 3" by blast
  with evf gf have b: "\<exists>s. run 16 100 (take 3 three_operations @ [Reply 1 Failed]) ?init = Some s
          \<and> gather (tasks s) = Propagated RequestError
          \<and> tasks s = [Done, Raised RequestError, Sleeping 4]
          \<and> length (log_rows s) < 3"
    by (intro exI [of _ ?f]) simp
  note z = scheduler_join_barrier [of "(+)" 0 arrivals 16 100]
  have rz: "run 16 100 [] (run_simulation (+) 0 arrivals) = Some (run_simulation (+) 0 arrivals)"
    by simp
  from z have "gather (tasks (run_simulation (+) 0 arrivals)) = Returned
          \<and> (\<forall>evs s. run 16 100 evs (run_simulation (+) 0 arrivals) = Some s \<longrightarrow>
                tasks s = [] \<and> requests s = [] \<and> log_rows s = [])"
    by blast
  then have g0: "gather (tasks (run_simulation (+) 0 arrivals)) = Returned"
    and a0: "\<forall>evs s. run 16 100 evs (run_simulation (+) 0 arrivals) = Some s \<longrightarrow>
                tasks s = [] \<and> requests s = [] \<and> log_rows s = []"
    by (rule conjunct1, rule conjunct2)
  from a0 [rule_format, OF rz] g0 rz
  have c: "\<exists>s. run 16 100 [] (run_simulation (+) 0 arrivals) = Some s
          \<and> gather (tasks s) = Returned \<and> tasks s = [] \<and> log_rows s = []"
    by (intro exI [of _ "run_simulation (+) 0 arrivals"]) simp
  from sch so late first a b c show ?thesis by (intro conjI)
qed

text \<open>
  C5 as stated fails on the join barrier: with three operations scheduled, the request of
  the second fails with an exception that is not a timeout; \<open>gather\<close> hands it to
  \<open>run_simulation\<close>, which gets control back while the third task is still sleeping.
  (The samples are 1, 2, 1, whose sums 1, 3, 4 are exact in doubles.)
\<close>

theorem control_returns_with_a_task_unfinished:
  "run 16 100 [Wake 0 0 3 50, Reply 0 (Ok ''QmA''), Wake 1 0 5 0, Reply 1 Failed]
     (run_simulation (+) 3 arrivals)
   = Some \<lparr>uploaded_files = [''QmA''],
       log_rows = [\<lparr>row_node = 3, row_op = Upload, file_size = 50, cid = ''QmA'', success = True\<rparr>],
       tasks = [Done, Raised RequestError, Sleeping 4],
       requests = [(0, Add 3 50), (1, Cat 5 ''QmA'')]\<rparr>
   \<and> gather [Done, Raised RequestError, Sleeping 4] = Propagated RequestError"
  by (simp add: sim_eval)

section \<open>The claim about failures and log rows\<close>

text \<open>
  C3 (one row per attempt, failures caught), as the code has it. On the side of the
  topology manager, \<open>connect_nodes\<close> with both indices in range never raises, whatever
  the cluster answers: it returns True when the connect succeeds (\<open>connect_succeeds\<close>)
  and False in every other case, so the ring, the full mesh and the grid go through all
  their edges and end normally. It writes nothing to the topology log (it reports on the
  console only); one run of \<open>main\<close> appends exactly one row to that log, to a log it has
  emptied when a topology was asked for.

  On the side of the simulator, in every state of a run there are as many rows as
  completed operations. When the request of a waiting operation ends with a response or
  with a timeout, exactly one row is appended (successful unless it was a timeout), the
  operation is done, and \<open>gather\<close> does not raise on that account. When the request ends
  with any other exception (\<open>Failed\<close>: a refused connection, an HTTP error status raised
  by \<open>raise_for_status\<close>), no row is written and the exception leaves the task; if
  \<open>gather\<close> was still suspended it hands that exception to \<open>run_simulation\<close>; and
  whatever happens afterwards, the task stays raised, \<open>gather\<close> has raised, and there are
  fewer rows than operations: the failed operation never gets a row.
\<close>

theorem rows_of_attempts_and_failures:
  "(i < n \<and> j < n \<longrightarrow>
      (\<exists>w'. connect_nodes e n i j w = (Inr (connect_succeeds e i j w), w')
          \<and> calls w' = calls w @ [(i, j)] \<and> topology_log w' = topology_log w))
   \<and> (\<exists>w'. create_ring_topology e n w = (Inr (), w')
          \<and> length (calls w') = length (calls w) + n \<and> topology_log w' = topology_log w)
   \<and> (\<exists>w'. create_fully_connected_topology e n w = (Inr (), w')
          \<and> calls w' = calls w @ full_edges n \<and> topology_log w' = topology_log w)
   \<and> (\<exists>w'. create_grid_topology e (side * side) w = (Inr (), w')
          \<and> calls w' = calls w @ grid_edges side \<and> topology_log w' = topology_log w)
   \<and> (\<forall>r w'. main e a draws w = Some (r, w') \<longrightarrow>
          (\<exists>row. topology_log w' = (if topology a = None then topology_log w else []) @ [row]))
   \<and> (\<forall>evs s. run num_nodes max_size evs (run_simulation fadd k samples) = Some s \<longrightarrow>
          length (log_rows s) = length (filter (\<lambda>t. t = Done) (tasks s))
          \<and> (\<forall>t req. t < length (tasks s) \<and> tasks s ! t = Waiting req \<longrightarrow>
               (\<forall>resp. resp \<noteq> Failed \<longrightarrow>
                  (\<exists>s' row. step num_nodes max_size (Reply t resp) s = Some s'
                     \<and> log_rows s' = log_rows s @ [row] \<and> success row = (resp \<noteq> TimedOut)
                     \<and> tasks s' = (tasks s)[t := Done]
                     \<and> (gather (tasks s) = Running \<longrightarrow>
                           (\<forall>err. gather (tasks s') \<noteq> Propagated err))))
               \<and> (\<exists>s'. step num_nodes max_size (Reply t Failed) s = Some s'
                     \<and> log_rows s' = log_rows s \<and> uploaded_files s' = uploaded_files s
                     \<and> tasks s' = (tasks s)[t := Raised RequestError]
                     \<and> (gather (tasks s) = Running \<longrightarrow>
                           gather (tasks s') = Propagated RequestError)
                     \<and> (\<forall>evs' s''. run num_nodes max_size evs' s' = Some s'' \<longrightarrow>
                           tasks s'' ! t = Raised RequestError
                           \<and> (\<exists>err. gather (tasks s'') = Propagated err)
                           \<and> length (log_rows s'') < length (tasks s'')))))"
proof (intro conjI)
  show "i < n \<and> j < n \<longrightarrow>
      (\<exists>w'. connect_nodes e n i j w = (Inr (connect_succeeds e i j w), w')
          \<and> calls w' = calls w @ [(i, j)] \<and> topology_log w' = topology_log w)"
    using connect_nodes_result [of i n j e w] by simp
  show "\<exists>w'. create_ring_topology e n w = (Inr (), w')
          \<and> length (calls w') = length (calls w) + n \<and> topology_log w' = topology_log w"
    using ring_calls [of e n w] by auto
  show "\<exists>w'. create_fully_connected_topology e n w = (Inr (), w')
          \<and> calls w' = calls w @ full_edges n \<and> topology_log w' = topology_log w"
    by (rule full_calls)
  show "\<exists>w'. create_grid_topology e (side * side) w = (Inr (), w')
          \<and> calls w' = calls w @ grid_edges side \<and> topology_log w' = topology_log w"
    by (rule grid_calls)
  show "\<forall>r w'. main e a draws w = Some (r, w') \<longrightarrow>
          (\<exists>row. topology_log w' = (if topology a = None then topology_log w else []) @ [row])"
    using main_one_row by blast
  have reach: "length (log_rows s) = length (filter (\<lambda>t. t = Done) (tasks s))
          \<and> (\<forall>t req. t < length (tasks s) \<and> tasks s ! t = Waiting req \<longrightarrow>
               (\<forall>resp. resp \<noteq> Failed \<longrightarrow>
                  (\<exists>s' row. step num_nodes max_size (Reply t resp) s = Some s'
                     \<and> log_rows s' = log_rows s @ [row] \<and> success row = (resp \<noteq> TimedOut)
                     \<and> tasks s' = (tasks s)[t := Done]
                     \<and> (gather (tasks s) = Running \<longrightarrow>
                           (\<forall>err. gather (tasks s') \<noteq> Propagated err))))
               \<and> (\<exists>s'. step num_nodes max_size (Reply t Failed) s = Some s'
                     \<and> log_rows s' = log_rows s \<and> uploaded_files s' = uploaded_files s
                     \<and> tasks s' = (tasks s)[t := Raised RequestError]
                     \<and> (gather (tasks s) = Running \<longrightarrow>
                           gather (tasks s') = Propagated RequestError)
                     \<and> (\<forall>evs' s''. run num_nodes max_size evs' s' = Some s'' \<longrightarrow>
                           tasks s'' ! t = Raised RequestError
                           \<and> (\<exists>err. gather (tasks s'') = Propagated err)
                           \<and> length (log_rows s'') < length (tasks s''))))"
    if r: "run num_nodes max_size evs (run_simulation fadd k samples) = Some s" for evs s
  proof -
    from run_invariants [OF r] have rc: "rows_counted s" by simp
    then have c: "length (log_rows s) = length (filter (\<lambda>t. t = Done) (tasks s))"
      by (simp add: rows_counted_def)
    have per: "(\<forall>resp. resp \<noteq> Failed \<longrightarrow>
                  (\<exists>s' row. step num_nodes max_size (Reply t resp) s = Some s'
                     \<and> log_rows s' = log_rows s @ [row] \<and> success row = (resp \<noteq> TimedOut)
                     \<and> tasks s' = (tasks s)[t := Done]
                     \<and> (gather (tasks s) = Running \<longrightarrow>
                           (\<forall>err. gather (tasks s') \<noteq> Propagated err))))
               \<and> (\<exists>s'. step num_nodes max_size (Reply t Failed) s = Some s'
                     \<and> log_rows s' = log_rows s \<and> uploaded_files s' = uploaded_files s
                     \<and> tasks s' = (tasks s)[t := Raised RequestError]
                     \<and> (gather (tasks s) = Running \<longrightarrow>
                           gather (tasks s') = Propagated RequestError)
                     \<and> (\<forall>evs' s''. run num_nodes max_size evs' s' = Some s'' \<longrightarrow>
                           tasks s'' ! t = Raised RequestError
                           \<and> (\<exists>err. gather (tasks s'') = Propagated err)
                           \<and> length (log_rows s'') < length (tasks s'')))"
      if t: "t < length (tasks s)" and w: "tasks s ! t = Waiting req" for t req
    proof (rule conjI)
      show "\<forall>resp. resp \<noteq> Failed \<longrightarrow>
                  (\<exists>s' row. step num_nodes max_size (Reply t resp) s = Some s'
                     \<and> log_rows s' = log_rows s @ [row] \<and> success row = (resp \<noteq> TimedOut)
                     \<and> tasks s' = (tasks s)[t := Done]
                     \<and> (gather (tasks s) = Running \<longrightarrow>
                           (\<forall>err. gather (tasks s') \<noteq> Propagated err)))"
      proof (intro allI impI)
        fix resp :: response assume nf: "resp \<noteq> Failed"
        from reply_row [OF t w nf, of num_nodes max_size] obtain s' row where
          1: "step num_nodes max_size (Reply t resp) s = Some s'"
          and 2: "log_rows s' = log_rows s @ [row]"
          and 3: "success row = (resp \<noteq> TimedOut)"
          and 4: "tasks s' = (tasks s)[t := Done]"
          by (elim exE conjE)
        have 5: "gather (tasks s) = Running \<longrightarrow> (\<forall>err. gather (tasks s') \<noteq> Propagated err)"
          unfolding 4 using gather_after_done by blast
        from 1 2 3 4 5
        show "\<exists>s' row. step num_nodes max_size (Reply t resp) s = Some s'
                     \<and> log_rows s' = log_rows s @ [row] \<and> success row = (resp \<noteq> TimedOut)
                     \<and> tasks s' = (tasks s)[t := Done]
                     \<and> (gather (tasks s) = Running \<longrightarrow>
                           (\<forall>err. gather (tasks s') \<noteq> Propagated err))"
          by (intro exI [of _ s'] exI [of _ row] conjI)
      qed
    next
      let ?f = "s\<lparr>tasks := (tasks s)[t := Raised RequestError]\<rparr>"
      have 1: "step num_nodes max_size (Reply t Failed) s = Some ?f"
        by (rule reply_failed [OF t w])
      have 2: "log_rows ?f = log_rows s" and 3: "uploaded_files ?f = uploaded_files s"
        and 4: "tasks ?f = (tasks s)[t := Raised RequestError]"
        by simp_all
      have 5: "gather (tasks s) = Running \<longrightarrow> gather (tasks ?f) = Propagated RequestError"
        using raise_propagated [OF _ t] by simp
      from rows_counted_step [OF 1 rc] have rcf: "rows_counted ?f" .
      have tf: "t < length (tasks ?f) \<and> tasks ?f ! t = Raised RequestError"
        using t by simp
      have 6: "\<forall>evs' s''. run num_nodes max_size evs' ?f = Some s'' \<longrightarrow>
                           tasks s'' ! t = Raised RequestError
                           \<and> (\<exists>err. gather (tasks s'') = Propagated err)
                           \<and> length (log_rows s'') < length (tasks s'')"
      proof (intro allI impI)
        fix evs' s'' assume r': "run num_nodes max_size evs' ?f = Some s''"
        from raised_run [OF r' tf] have a: "t < length (tasks s'')"
          and b: "tasks s'' ! t = Raised RequestError" by simp_all
        from raised_gather [OF a b] have g: "\<exists>err. gather (tasks s'') = Propagated err" .
        from rows_counted_run [OF r' rcf] have "rows_counted s''" .
        from rows_below [OF this a] b have l: "length (log_rows s'') < length (tasks s'')"
          by simp
        from b g l show "tasks s'' ! t = Raised RequestError
                           \<and> (\<exists>err. gather (tasks s'') = Propagated err)
                           \<and> length (log_rows s'') < length (tasks s'')"
          by (intro conjI)
      qed
      from 1 2 3 4 5 6
      show "\<exists>s'. step num_nodes max_size (Reply t Failed) s = Some s'
                     \<and> log_rows s' = log_rows s \<and> uploaded_files s' = uploaded_files s
                     \<and> tasks s' = (tasks s)[t := Raised RequestError]
                     \<and> (gather (tasks s) = Running \<longrightarrow>
                           gather (tasks s') = Propagated RequestError)
                     \<and> (\<forall>evs' s''. run num_nodes max_size evs' s' = Some s'' \<longrightarrow>
                           tasks s'' ! t = Raised RequestError
                           \<and> (\<exists>err. gather (tasks s'') = Propagated err)
                           \<and> length (log_rows s'') < length (tasks s''))"
        by (intro exI [of _ ?f] conjI)
    qed
    from c per show ?thesis by blast
  qed
  then show "\<forall>evs s. run num_nodes max_size evs (run_simulation fadd k samples) = Some s \<longrightarrow>
          length (log_rows s) = length (filter (\<lambda>t. t = Done) (tasks s))
          \<and> (\<forall>t req. t < length (tasks s) \<and> tasks s ! t = Waiting req \<longrightarrow>
               (\<forall>resp. resp \<noteq> Failed \<longrightarrow>
                  (\<exists>s' row. step num_nodes max_size (Reply t resp) s = Some s'
                     \<and> log_rows s' = log_rows s @ [row] \<and> success row = (resp \<noteq> TimedOut)
                     \<and> tasks s' = (tasks s)[t := Done]
                     \<and> (gather (tasks s) = Running \<longrightarrow>
                           (\<forall>err. gather (tasks s') \<noteq> Propagated err))))
               \<and> (\<exists>s'. step num_nodes max_size (Reply t Failed) s = Some s'
                     \<and> log_rows s' = log_rows s \<and> uploaded_files s' = uploaded_files s
                     \<and> tasks s' = (tasks s)[t := Raised RequestError]
                     \<and> (gather (tasks s) = Running \<longrightarrow>
                           gather (tasks s') = Propagated RequestError)
                     \<and> (\<forall>evs' s''. run num_nodes max_size evs' s' = Some s'' \<longrightarrow>
                           tasks s'' ! t = Raised RequestError
                           \<and> (\<exists>err. gather (tasks s'') = Propagated err)
                           \<and> length (log_rows s'') < length (tasks s''))))"
    by (intro allI impI)
qed

theorem rows_of_attempts_and_failures_witness:
  "(\<exists>w'. connect_nodes healthy 2 0 1 fresh = (Inr True, w') \<and> calls w' = [(0, 1)]
       \<and> topology_log w' = [])
   \<and> (\<exists>w'. connect_nodes refusing 2 0 1 fresh = (Inr False, w') \<and> calls w' = [(0, 1)]
       \<and> topology_log w' = [])
   \<and> (\<exists>r w' row. main healthy \<lparr>topology = Some Ring, nodes = 2, matrix_only = False\<rparr>
                      (sconst []) fresh = Some (r, w')
         \<and> topology_log w' = [row])
   \<and> (\<exists>s s' row. run 16 100 (take 3 three_operations) (run_simulation (+) 3 arrivals) = Some s
         \<and> tasks s = [Done, Waiting (Cat 5 ''QmA''), Sleeping 4]
         \<and> step 16 100 (Reply 1 TimedOut) s = Some s'
         \<and> log_rows s' = log_rows s @ [row] \<and> \<not> success row
         \<and> tasks s' = [Done, Done, Sleeping 4])
   \<and> (\<exists>s s' s''. run 16 100 (take 3 three_operations) (run_simulation (+) 3 arrivals) = Some s
         \<and> step 16 100 (Reply 1 Failed) s = Some s'
         \<and> log_rows s' = log_rows s
         \<and> gather (tasks s') = Propagated RequestError
         \<and> run 16 100 [Wake 2 2 7 500, Reply 2 TimedOut] s' = Some s''
         \<and> tasks s'' = [Done, Raised RequestError, Done]
         \<and> length (log_rows s'') < length (tasks s''))"
proof -
  let ?a = "\<lparr>topology = Some Ring, nodes = 2, matrix_only = False\<rparr>"
  note t = rows_of_attempts_and_failures
    [of 0 2 1 healthy fresh 0 ?a "sconst []" 16 100 "(+)" 3 arrivals]
  from t have "(0::nat) < 2 \<and> (1::nat) < 2 \<longrightarrow>
      (\<exists>w'. connect_nodes healthy 2 0 1 fresh = (Inr (connect_succeeds healthy 0 1 fresh), w')
          \<and> calls w' = calls fresh @ [(0, 1)] \<and> topology_log w' = topology_log fresh)"
    by (rule conjunct1)
  moreover have "connect_succeeds healthy 0 1 fresh"
    by (simp add: connect_succeeds_def healthy_def)
  ultimately have A: "\<exists>w'. connect_nodes healthy 2 0 1 fresh = (Inr True, w')
       \<and> calls w' = [(0, 1)] \<and> topology_log w' = []"
    by (simp add: fresh_def)
  note u = rows_of_attempts_and_failures
    [of 0 2 1 refusing fresh 0 ?a "sconst []" 16 100 "(+)" 3 arrivals]
  from u have "(0::nat) < 2 \<and> (1::nat) < 2 \<longrightarrow>
      (\<exists>w'. connect_nodes refusing 2 0 1 fresh = (Inr (connect_succeeds refusing 0 1 fresh), w')
          \<and> calls w' = calls fresh @ [(0, 1)] \<and> topology_log w' = topology_log fresh)"
    by (rule conjunct1)
  moreover have "\<not> connect_succeeds refusing 0 1 fresh"
    by (simp add: connect_succeeds_def refusing_def healthy_def)
  ultimately have A': "\<exists>w'. connect_nodes refusing 2 0 1 fresh = (Inr False, w')
       \<and> calls w' = [(0, 1)] \<and> topology_log w' = []"
    by (simp add: fresh_def)
  from ring_calls [of healthy 2 "fresh\<lparr>topology_log := []\<rparr>"] obtain w1 where
    "create_ring_topology healthy 2 (fresh\<lparr>topology_log := []\<rparr>) = (Inr (), w1)"
    by (elim exE conjE)
  then have "\<exists>r w'. main healthy ?a (sconst []) fresh = Some (r, w')"
    by (simp add: main_def create_topology_def)
  then obtain r w' where m: "main healthy ?a (sconst []) fresh = Some (r, w')" by (elim exE)
  from t have "\<forall>r w'. main healthy ?a (sconst []) fresh = Some (r, w') \<longrightarrow>
          (\<exists>row. topology_log w' = (if topology ?a = None then topology_log fresh else []) @ [row])"
    by (elim conjE)
  from this [rule_format, OF m] obtain row where "topology_log w' = [row]" by auto
  with m have B: "\<exists>r w' row. main healthy ?a (sconst []) fresh = Some (r, w')
         \<and> topology_log w' = [row]"
    by (intro exI [of _ r] exI [of _ w'] exI [of _ row] conjI)
  let ?mid = "\<lparr>uploaded_files = [''QmA''],
       log_rows = [\<lparr>row_node = 3, row_op = Upload, file_size = 50, cid = ''QmA'', success = True\<rparr>],
       tasks = [Done, Waiting (Cat 5 ''QmA''), Sleeping 4],
       requests = [(0, Add 3 50), (1, Cat 5 ''QmA'')]\<rparr>"
  have ev: "run 16 100 (take 3 three_operations) (run_simulation (+) 3 arrivals) = Some ?mid"
    by (simp add: sim_eval)
  have h: "1 < length (tasks ?mid) \<and> tasks ?mid ! 1 = Waiting (Cat 5 ''QmA'')"
    by simp
  have gm: "gather (tasks ?mid) = Running" by (simp add: gather_def)
  from t have "\<forall>evs s. run 16 100 evs (run_simulation (+) 3 arrivals) = Some s \<longrightarrow>
          length (log_rows s) = length (filter (\<lambda>t. t = Done) (tasks s))
          \<and> (\<forall>t req. t < length (tasks s) \<and> tasks s ! t = Waiting req \<longrightarrow>
               (\<forall>resp. resp \<noteq> Failed \<longrightarrow>
                  (\<exists>s' row. step 16 100 (Reply t resp) s = Some s'
                     \<and> log_rows s' = log_rows s @ [row] \<and> success row = (resp \<noteq> TimedOut)
                     \<and> tasks s' = (tasks s)[t := Done]
                     \<and> (gather (tasks s) = Running \<longrightarrow>
                           (\<forall>err. gather (tasks s') \<noteq> Propagated err))))
               \<and> (\<exists>s'. step 16 100 (Reply t Failed) s = Some s'
                     \<and> log_rows s' = log_rows s \<and> uploaded_files s' = uploaded_files s
                     \<and> tasks s' = (tasks s)[t := Raised RequestError]
                     \<and> (gather (tasks s) = Running \<longrightarrow>
                           gather (tasks s') = Propagated RequestError)
                     \<and> (\<forall>evs' s''. run 16 100 evs' s' = Some s'' \<longrightarrow>
                           tasks s'' ! t = Raised RequestError
                           \<and> (\<exists>err. gather (tasks s'') = Propagated err)
                           \<and> length (log_rows s'') < length (tasks s''))))"
    by (elim conjE)
  from this [rule_format, OF ev] have
    "\<forall>t req. t < length (tasks ?mid) \<and> tasks ?mid ! t = Waiting req \<longrightarrow>
               (\<forall>resp. resp \<noteq> Failed \<longrightarrow>
                  (\<exists>s' row. step 16 100 (Reply t resp) ?mid = Some s'
                     \<and> log_rows s' = log_rows ?mid @ [row] \<and> success row = (resp \<noteq> TimedOut)
                     \<and> tasks s' = (tasks ?mid)[t := Done]
                     \<and> (gather (tasks ?mid) = Running \<longrightarrow>
                           (\<forall>err. gather (tasks s') \<noteq> Propagated err))))
               \<and> (\<exists>s'. step 16 100 (Reply t Failed) ?mid = Some s'
                     \<and> log_rows s' = log_rows ?mid \<and> uploaded_files s' = uploaded_files ?mid
                     \<and> tasks s' = (tasks ?mid)[t := Raised RequestError]
                     \<and> (gather (tasks ?mid) = Running \<longrightarrow>
                           gather (tasks s') = Propagated RequestError)
                     \<and> (\<forall>evs' s''. run 16 100 evs' s' = Some s'' \<longrightarrow>
                           tasks s'' ! t = Raised RequestError
                           \<and> (\<exists>err. gather (tasks s'') = Propagated err)
                           \<and> length (log_rows s'') < length (tasks s'')))"
    by (rule conjunct2)
  from this [rule_format, OF h] have
    1: "\<forall>resp. resp \<noteq> Failed \<longrightarrow>
                  (\<exists>s' row. step 16 100 (Reply 1 resp) ?mid = Some s'
                     \<and> log_rows s' = log_rows ?mid @ [row] \<and> success row = (resp \<noteq> TimedOut)
                     \<and> tasks s' = (tasks ?mid)[1 := Done]
                     \<and> (gather (tasks ?mid) = Running \<longrightarrow>
                           (\<forall>err. gather (tasks s') \<noteq> Propagated err)))"
    and 2: "\<exists>s'. step 16 100 (Reply 1 Failed) ?mid = Some s'
                     \<and> log_rows s' = log_rows ?mid \<and> uploaded_files s' = uploaded_files ?mid
                     \<and> tasks s' = (tasks ?mid)[1 := Raised RequestError]
                     \<and> (gather (tasks ?mid) = Running \<longrightarrow>
                           gather (tasks s') = Propagated RequestError)
                     \<and> (\<forall>evs' s''. run 16 100 evs' s' = Some s'' \<longrightarrow>
                           tasks s'' ! 1 = Raised RequestError
                           \<and> (\<exists>err. gather (tasks s'') = Propagated err)
                           \<and> length (log_rows s'') < length (tasks s''))"
    by (rule conjunct1, rule conjunct2)
  have "TimedOut \<noteq> Failed" by simp
  from 1 [rule_format, OF this] obtain s' row where
    "step 16 100 (Reply 1 TimedOut) ?mid = Some s'" "log_rows s' = log_rows ?mid @ [row]"
    "success row = (TimedOut \<noteq> TimedOut)" "tasks s' = (tasks ?mid)[1 := Done]"
    by (elim exE conjE)
  then have "step 16 100 (Reply 1 TimedOut) ?mid = Some s' \<and> log_rows s' = log_rows ?mid @ [row]
      \<and> \<not> success row \<and> tasks s' = [Done, Done, Sleeping 4]"
    by simp
  with ev have C: "\<exists>s s' row. run 16 100 (take 3 three_operations) (run_simulation (+) 3 arrivals) = Some s
         \<and> tasks s = [Done, Waiting (Cat 5 ''QmA''), Sleeping 4]
         \<and> step 16 100 (Reply 1 TimedOut) s = Some s'
         \<and> log_rows s' = log_rows s @ [row] \<and> \<not> success row
         \<and> tasks s' = [Done, Done, Sleeping 4]"
    by (intro exI [of _ ?mid] exI [of _ s'] exI [of _ row]) simp
  from 2 obtain f where
    f1: "step 16 100 (Reply 1 Failed) ?mid = Some f" and f2: "log_rows f = log_rows ?mid"
    and f3: "gather (tasks ?mid) = Running \<longrightarrow> gather (tasks f) = Propagated RequestError"
    and f4: "\<forall>evs' s''. run 16 100 evs' f = Some s'' \<longrightarrow>
                           tasks s'' ! 1 = Raised RequestError
                           \<and> (\<exists>err. gather (tasks s'') = Propagated err)
                           \<and> length (log_rows s'') < length (tasks s'')"
    by (elim exE conjE)
  from f3 gm have f5: "gather (tasks f) = Propagated RequestError" by simp
  from f1 have fv: "f = ?mid\<lparr>tasks := [Done, Raised RequestError, Sleeping 4]\<rparr>"
    by (simp add: step_def run_operation_finish_def download_file_def)
  let ?last = "\<lparr>uploaded_files = [''QmA''],
       log_rows = [\<lparr>row_node = 3, row_op = Upload, file_size = 50, cid = ''QmA'', success = True\<rparr>,
                   \<lparr>row_node = 7, row_op = Upload, file_size = 100, cid = ''error'', success = False\<rparr>],
       tasks = [Done, Raised RequestError, Done],
       requests = [(0, Add 3 50), (1, Cat 5 ''QmA''), (2, Add 7 100)]\<rparr>"
  have f6: "run 16 100 [Wake 2 2 7 500, Reply 2 TimedOut] f = Some ?last"
    unfolding fv by (simp add: sim_eval)
  from f4 [rule_format, OF f6] have f7: "length (log_rows ?last) < length (tasks ?last)"
    by (elim conjE)
  have f8: "tasks ?last = [Done, Raised RequestError, Done]" by simp
  from ev f1 f2 f5 f6 f8 f7
  have D: "\<exists>s s' s''. run 16 100 (take 3 three_operations) (run_simulation (+) 3 arrivals) = Some s
         \<and> step 16 100 (Reply 1 Failed) s = Some s'
         \<and> log_rows s' = log_rows s
         \<and> gather (tasks s') = Propagated RequestError
         \<and> run 16 100 [Wake 2 2 7 500, Reply 2 TimedOut] s' = Some s''
         \<and> tasks s'' = [Done, Raised RequestError, Done]
         \<and> length (log_rows s'') < length (tasks s'')"
    by (intro exI [of _ ?mid] exI [of _ f] exI [of _ ?last] conjI)
  from A A' B C D show ?thesis by (intro conjI)
qed

text \<open>
  C3 as stated fails: a successful connect in a healthy cluster of two nodes leaves the
  topology log empty; and with two operations scheduled, the first of which uploads and
  finds its request failing, the operation leaves no row and its exception is propagated
  by \<open>gather\<close>.
\<close>

theorem failed_request_not_logged_and_propagated:
  "connect_nodes healthy 2 0 1 fresh
     = (Inr True, \<lparr>clock = 3, calls = [(0, 1)], topology_log = []\<rparr>)
   \<and> run 16 100 [Wake 0 0 3 50, Reply 0 Failed] (run_simulation (+) 2 arrivals)
     = Some \<lparr>uploaded_files = [], log_rows = [], tasks = [Raised RequestError, Sleeping 3],
             requests = [(0, Add 3 50)]\<rparr>
   \<and> gather [Raised RequestError, Sleeping 3] = Propagated RequestError"
proof (intro conjI)
  show "connect_nodes healthy 2 0 1 fresh
     = (Inr True, \<lparr>clock = 3, calls = [(0, 1)], topology_log = []\<rparr>)"
    by (simp add: connect_nodes_def resolve_container_ip_def get_node_id_def falsy_def
        healthy_def fresh_def tick_def Let_def)
  show "run 16 100 [Wake 0 0 3 50, Reply 0 Failed] (run_simulation (+) 2 arrivals)
     = Some \<lparr>uploaded_files = [], log_rows = [], tasks = [Raised RequestError, Sleeping 3],
             requests = [(0, Add 3 50)]\<rparr>"
    by (simp add: sim_eval)
  show "gather [Raised RequestError, Sleeping 3] = Propagated RequestError"
    by (simp add: gather_def)
qed

end
